theory Spec2Isabelle
  imports Complex_Main "HOL-Library.Log_Nat" "HOL-Library.Multiset" "HOL-Library.AList"
begin

section \<open>Go machine integers\<close>

text \<open>
  Go's \<open>int\<close> is a 64-bit two's complement integer on the platforms Istio builds for.
  Signed overflow wraps around silently. Values are modelled as \<open>int\<close>, and every
  arithmetic operation of the source is followed by \<open>wrap64\<close>.
\<close>

definition is_int64 :: "int \<Rightarrow> bool" where
  "is_int64 x \<longleftrightarrow> - (2 ^ 63) \<le> x \<and> x < 2 ^ 63"

definition wrap64 :: "int \<Rightarrow> int" where
  "wrap64 x = (x + 2 ^ 63) mod 2 ^ 64 - 2 ^ 63"

text \<open>The conversion \<open>int32(x)\<close> of an \<open>int\<close>.\<close>

definition wrap32 :: "int \<Rightarrow> int" where
  "wrap32 x = (x + 2 ^ 31) mod 2 ^ 32 - 2 ^ 31"

section \<open>IEEE 754 binary64 arithmetic on finite values\<close>

text \<open>
  A finite \<open>float64\<close> is the rational number it denotes. Every operation computes the
  exact rational result and rounds it to the nearest representable value, ties to the
  even significand (53 bits of precision, gradual underflow below \<open>2^-1022\<close>).
  Each source operation rounds on its own (no fused multiply-subtract).
  All values met in \<open>standardizeWeights\<close> are quotients and products of converted
  64-bit integers, far below the overflow threshold \<open>2^1024\<close>; division by zero, the
  only way to an infinity or a NaN, is a separate branch of \<open>f64_div\<close>.
\<close>

definition pow2 :: "int \<Rightarrow> rat" where
  "pow2 k = (if 0 \<le> k then 2 ^ nat k else 1 / 2 ^ nat (- k))"

text \<open>The binary exponent \<open>e\<close> of a positive rational: \<open>2^e \<le> x < 2^(e+1)\<close>.\<close>

definition f64_exponent :: "rat \<Rightarrow> int" where
  "f64_exponent x =
     (let (a, b) = quotient_of x; d = bitlen a - bitlen b
      in if pow2 d \<le> x then d else d - 1)"

definition round_even :: "rat \<Rightarrow> int" where
  "round_even m =
     (let f = \<lfloor>m\<rfloor>; d = m - of_int f
      in if d < 1 / 2 then f
         else if 1 / 2 < d then f + 1
         else if even f then f else f + 1)"

definition rnd64 :: "rat \<Rightarrow> rat" where
  "rnd64 x =
     (if x = 0 then 0
      else let e = max (f64_exponent \<bar>x\<bar>) (- 1022); ulp = pow2 (e - 52)
           in sgn x * of_int (round_even (\<bar>x\<bar> / ulp)) * ulp)"

text \<open>\<open>float64(i)\<close> for an \<open>int\<close>.\<close>

definition f64_of_int :: "int \<Rightarrow> rat" where
  "f64_of_int i = rnd64 (of_int i)"

text \<open>
  \<open>a / b\<close>. Go does not panic on a floating-point division by zero; the quotient is then
  an infinity or a NaN, which is no rational: \<open>None\<close>.
\<close>

definition f64_div :: "rat \<Rightarrow> rat \<Rightarrow> rat option" where
  "f64_div a b = (if b = 0 then None else Some (rnd64 (a / b)))"

definition f64_mul :: "rat \<Rightarrow> rat \<Rightarrow> rat" where
  "f64_mul a b = rnd64 (a * b)"

definition f64_sub :: "rat \<Rightarrow> rat \<Rightarrow> rat" where
  "f64_sub a b = rnd64 (a - b)"

text \<open>
  \<open>int(x)\<close> for a \<open>float64\<close>: the fraction is discarded (truncation towards zero). A value
  outside the range of \<open>int\<close> converts to the minimum integer, as the amd64 conversion
  instruction does.
\<close>

definition f64_to_int :: "rat \<Rightarrow> int" where
  "f64_to_int x =
     (let t = (if 0 \<le> x then \<lfloor>x\<rfloor> else \<lceil>x\<rceil>)
      in if is_int64 t then t else - (2 ^ 63))"

section \<open>The library sort\<close>

text \<open>
  \<open>sort.Sort\<close> belongs to the Go standard library. It is taken as a parameter: a
  function on the slice of (remainder, index) pairs that \<open>argSlice\<close> swaps in lockstep.
  Its contract, for the reversed \<open>Float64Slice\<close> order: the result is a permutation of
  the input, and no element is followed by one with a greater key. The sort is not
  stable, so nothing is said about the order of equal keys.
\<close>

type_synonym sorter = "(rat \<times> nat) list \<Rightarrow> (rat \<times> nat) list"

definition Sort_contract :: "sorter \<Rightarrow> bool" where
  "Sort_contract srt \<longleftrightarrow>
     (\<forall>xs. mset (srt xs) = mset xs \<and> sorted_wrt (\<lambda>a b. \<not> fst a < fst b) (srt xs))"

text \<open>
  One sort that meets the contract: a stable insertion sort on the negated key, which
  leaves equal keys in index order.
\<close>

definition insertion_sort_desc :: sorter where
  "insertion_sort_desc xs = sort_key (\<lambda>p. - fst p) xs"

section \<open>The weight standardizer\<close>

datatype fault = IndexOutOfRange | NilDereference | NonFiniteFloat

definition intSum :: "int list \<Rightarrow> int" where
  "intSum n = foldl (\<lambda>r i. wrap64 (r + i)) 0 n"

definition argsort :: "sorter \<Rightarrow> rat list \<Rightarrow> nat list" where
  "argsort srt n = map snd (srt (zip n [0..<length n]))"

text \<open>The body of the loop over the weights: the rounded percentage and its remainder.\<close>

definition percentage :: "int \<Rightarrow> int \<Rightarrow> fault + (int \<times> rat)" where
  "percentage tot w =
     (case f64_div (f64_of_int w) (f64_of_int tot) of
        None \<Rightarrow> Inl NonFiniteFloat
      | Some perc \<Rightarrow>
          let rounded = f64_to_int (f64_mul perc 100)
          in Inr (rounded, f64_sub (f64_mul perc 100) (f64_of_int rounded)))"

fun percentages :: "int \<Rightarrow> int list \<Rightarrow> fault + (int list \<times> rat list)" where
  "percentages tot [] = Inr ([], [])"
| "percentages tot (w # ws) =
     (case percentage tot w of
        Inl e \<Rightarrow> Inl e
      | Inr (rounded, remainder) \<Rightarrow>
          (case percentages tot ws of
             Inl e \<Rightarrow> Inl e
           | Inr (results, remainders) \<Rightarrow> Inr (rounded # results, remainder # remainders)))"

text \<open>The loop over \<open>order\<close>: one unit for each index while \<open>remaining\<close> is positive.\<close>

fun distribute :: "nat list \<Rightarrow> int \<Rightarrow> int list \<Rightarrow> fault + int list" where
  "distribute [] remaining results = Inr results"
| "distribute (idx # order) remaining results =
     (if remaining \<le> 0 then Inr results
      else if idx < length results
        then distribute order (wrap64 (remaining - 1))
               (results[idx := wrap64 (results ! idx + 1)])
        else Inl IndexOutOfRange)"

text \<open>
  The slice argument shares its array with the caller, so the call returns two things:
  the contents of the caller's slice after the call, and the returned slice.
\<close>

record call_result =
  weights_after :: "int list"
  returned :: "int list"

definition standardizeWeights :: "sorter \<Rightarrow> int list \<Rightarrow> fault + call_result" where
  "standardizeWeights srt weights =
     (if length weights = 1 then Inr \<lparr>weights_after = weights, returned = [0]\<rparr>
      else
        let tot = intSum weights;
            weights' = (if tot = 0 then map (\<lambda>_. 1) weights else weights);
            tot' = (if tot = 0 then int (length weights) else tot)
        in case percentages tot' weights' of
             Inl e \<Rightarrow> Inl e
           | Inr (results, remainders) \<Rightarrow>
               (case distribute (argsort srt remainders) (wrap64 (100 - intSum results)) results of
                  Inl e \<Rightarrow> Inl e
                | Inr res \<Rightarrow> Inr \<lparr>weights_after = weights', returned = res\<rparr>))"

section \<open>Gateway API objects read by the conversion\<close>

text \<open>
  The Kubernetes Gateway API types come from another module. The records hold the
  fields the conversion reads; a pointer field is an \<open>option\<close>, a slice that
  can be nil is an \<open>option\<close> of a list, a Go map is an association list with distinct
  keys. \<open>BackendRef\<close> inlines its \<open>BackendObjectReference\<close>, as the Go struct embeds
  it; \<open>Port\<close> and \<open>Weight\<close> are 32-bit integers. A string-typed enumeration is a
  datatype with one constructor for every other string.
\<close>

record BackendRef =
  Group :: "string option"
  Kind :: "string option"
  Name :: string
  Namespace :: "string option"
  Port :: "int option"
  Weight :: "int option"

type_synonym HTTPHeader = "string \<times> string"

record HTTPRequestHeaderFilter =
  Set :: "HTTPHeader list"
  Add :: "HTTPHeader list"
  Remove :: "string list"

record HTTPRequestRedirectFilter =
  StatusCode :: "int option"
  Hostname :: "string option"
  Scheme :: "string option"
  RedirectPort :: "int option"

datatype HTTPRouteFilterType =
  HTTPRouteFilterRequestHeaderModifier
| HTTPRouteFilterRequestRedirect
| HTTPRouteFilterRequestMirror
| HTTPRouteFilterOther string

text \<open>
  \<open>RequestMirror\<close> holds the mirror filter's backend reference; its \<open>Weight\<close> is not
  part of the Go field and is never read.
\<close>

record HTTPRouteFilter =
  Type :: HTTPRouteFilterType
  RequestHeaderModifier :: "HTTPRequestHeaderFilter option"
  RequestMirror :: "BackendRef option"
  RequestRedirect :: "HTTPRequestRedirectFilter option"

record HTTPBackendRef =
  BackendRef :: BackendRef
  Filters :: "HTTPRouteFilter list"

datatype PathMatchType =
  PathMatchExact | PathMatchPathPrefix | PathMatchRegularExpression | PathMatchOther string

datatype HeaderMatchType =
  HeaderMatchExact | HeaderMatchRegularExpression | HeaderMatchOther string

datatype QueryParamMatchType =
  QueryParamMatchExact | QueryParamMatchRegularExpression | QueryParamMatchOther string

record HTTPPathMatch =
  PathType :: "PathMatchType option"
  PathValue :: "string option"

record HTTPHeaderMatch =
  HeaderType :: "HeaderMatchType option"
  HeaderName :: string
  HeaderValue :: string

record HTTPQueryParamMatch =
  QueryParamType :: "QueryParamMatchType option"
  QueryParamName :: string
  QueryParamValue :: string

record HTTPRouteMatch =
  Path :: "HTTPPathMatch option"
  Headers :: "HTTPHeaderMatch list"
  QueryParams :: "HTTPQueryParamMatch list"
  Method :: "string option"

record HTTPRouteRule =
  Matches :: "HTTPRouteMatch list"
  RuleFilters :: "HTTPRouteFilter list"
  BackendRefs :: "HTTPBackendRef list option"

record HTTPRouteSpec =
  Hostnames :: "string list"
  Rules :: "HTTPRouteRule list"

section \<open>Istio objects the conversion produces\<close>

datatype StringMatch = Exact string | Prefix string | Regex string

record HTTPMatchRequest =
  Uri :: "StringMatch option"
  MatchHeaders :: "(string \<times> StringMatch) list option"
  MatchQueryParams :: "(string \<times> StringMatch) list option"
  MatchMethod :: "StringMatch option"

record Destination =
  Host :: string
  PortNumber :: int

record RouteDestination =
  rd_Destination :: Destination
  rd_Weight :: int

datatype RedirectPortOneof = RedirectPort_Port int | RedirectPort_DerivePort_FROM_REQUEST_PORT

record HTTPRedirect =
  RedirectCode :: int
  Authority :: string
  RedirectScheme :: string
  RedirectPortSel :: RedirectPortOneof

record HeaderOperations =
  ops_Add :: "(string \<times> string) list option"
  ops_Remove :: "string list"
  ops_Set :: "(string \<times> string) list option"

text \<open>An abort fault: the percentage of requests and the HTTP status.\<close>

record HTTPFaultInjection_Abort =
  Percentage :: rat
  HttpStatus :: int

record HTTPRouteDestination =
  hrd_Destination :: Destination
  hrd_Weight :: int
  hrd_Headers :: "HeaderOperations option"

text \<open>The \<open>istio.HTTPRoute\<close> that the variable \<open>vs\<close> of \<open>buildHTTPVirtualServices\<close> holds.\<close>

record HTTPRoute =
  vs_Match :: "HTTPMatchRequest list"
  vs_Headers :: "HeaderOperations option"
  vs_Redirect :: "HTTPRedirect option"
  vs_Mirror :: "Destination option"
  vs_Fault :: "HTTPFaultInjection_Abort option"
  vs_Route :: "HTTPRouteDestination list option"

text \<open>Of the generated \<open>VirtualService\<close>: its spec, without the metadata.\<close>

record VirtualService =
  Hosts :: "string list"
  Gateways :: "string list"
  Http :: "HTTPRoute list"

section \<open>Errors of the conversion\<close>

datatype ConfigErrorReason = InvalidDestination | InvalidFilter | InvalidConfiguration

text \<open>A message is a literal or a \<open>fmt.Sprintf\<close> call: the format with its arguments.\<close>

datatype message = Text string | Sprintf string "string list"

record ConfigError =
  Reason :: ConfigErrorReason
  Message :: message

text \<open>A call ends in a panic, in a returned error, or in a value.\<close>

datatype failure = Panic fault | Failed ConfigError

text \<open>
  What the conversion takes from outside this file: \<open>sort.Sort\<close>, \<open>strings.ToLower\<close>
  and \<open>regexp.QuoteMeta\<close> of the standard library, and two constants of the schema
  package (\<open>gvk.Service.Kind\<close> and \<open>gvk.ServiceEntry.Group\<close>).
\<close>

record env =
  sort_Sort :: sorter
  strings_ToLower :: "string \<Rightarrow> string"
  regexp_QuoteMeta :: "string \<Rightarrow> string"
  gvk_Service_Kind :: string
  gvk_ServiceEntry_Group :: string

section \<open>Helpers\<close>

definition defaultIfNil :: "string option \<Rightarrow> string \<Rightarrow> string" where
  "defaultIfNil s d = (case s of Some v \<Rightarrow> v | None \<Rightarrow> d)"

definition emptyIfNil :: "string option \<Rightarrow> string" where
  "emptyIfNil s = defaultIfNil s []"

definition nilOrEqual :: "string option \<Rightarrow> string \<Rightarrow> bool" where
  "nilOrEqual have expected \<longleftrightarrow> (case have of None \<Rightarrow> True | Some v \<Rightarrow> v = expected)"

text \<open>The conversion \<open>uint32(p)\<close> of a 32-bit port number.\<close>

definition to_uint32 :: "int \<Rightarrow> int" where
  "to_uint32 p = p mod 2 ^ 32"

section \<open>Destinations\<close>

definition buildDestination :: "env \<Rightarrow> BackendRef \<Rightarrow> string \<Rightarrow> string \<Rightarrow> ConfigError + Destination" where
  "buildDestination e to ns domain =
     (let namespace = defaultIfNil (Namespace to) ns
      in if nilOrEqual (Group to) [] \<and> nilOrEqual (Kind to) (gvk_Service_Kind e) then
           (case Port to of
              None \<Rightarrow> Inl \<lparr>Reason = InvalidDestination,
                           Message = Text ''port is required in backendRef''\<rparr>
            | Some p \<Rightarrow>
                if CHR ''.'' \<in> set (Name to) then
                  Inl \<lparr>Reason = InvalidDestination,
                       Message = Text ''serviceName invalid; the name of the Service must be used, not the hostname.''\<rparr>
                else Inr \<lparr>Host = Name to @ ''.'' @ namespace @ ''.svc.'' @ domain,
                          PortNumber = to_uint32 p\<rparr>)
         else if nilOrEqual (Group to) (gvk_ServiceEntry_Group e) \<and> nilOrEqual (Kind to) ''Hostname'' then
           (case Port to of
              None \<Rightarrow> Inl \<lparr>Reason = InvalidDestination,
                           Message = Text ''port is required in backendRef''\<rparr>
            | Some p \<Rightarrow>
                if Namespace to \<noteq> None then
                  Inl \<lparr>Reason = InvalidDestination,
                       Message = Text ''namespace may not be set with Hostname type''\<rparr>
                else Inr \<lparr>Host = Name to, PortNumber = to_uint32 p\<rparr>)
         else Inl \<lparr>Reason = InvalidDestination,
                   Message = Sprintf ''referencing unsupported backendRef: group %q kind %q''
                     [emptyIfNil (Group to), emptyIfNil (Kind to)]\<rparr>)"

text \<open>The weight of a backend reference: 1 when the field is absent.\<close>

definition weight_of :: "BackendRef \<Rightarrow> int" where
  "weight_of w = (case Weight w of Some x \<Rightarrow> x | None \<Rightarrow> 1)"

text \<open>The first loop of \<open>buildTCPDestination\<close>: the weights and the references kept.\<close>

fun tcp_select :: "BackendRef list \<Rightarrow> int list \<times> BackendRef list" where
  "tcp_select [] = ([], [])"
| "tcp_select (w # forwardTo) =
     (let (weights, action) = tcp_select forwardTo
      in if weight_of w = 0 then (weights, action)
         else (weight_of w # weights, w # action))"

text \<open>The second loop, from index \<open>i\<close> on.\<close>

fun tcp_routes :: "env \<Rightarrow> string \<Rightarrow> string \<Rightarrow> int list \<Rightarrow> nat \<Rightarrow> BackendRef list
    \<Rightarrow> failure + RouteDestination list" where
  "tcp_routes e ns domain weights i [] = Inr []"
| "tcp_routes e ns domain weights i (fwd # action) =
     (case buildDestination e fwd ns domain of
        Inl err \<Rightarrow> Inl (Failed err)
      | Inr dst \<Rightarrow>
          if i < length weights then
            (case tcp_routes e ns domain weights (Suc i) action of
               Inl f \<Rightarrow> Inl f
             | Inr res \<Rightarrow> Inr (\<lparr>rd_Destination = dst, rd_Weight = wrap32 (weights ! i)\<rparr> # res))
          else Inl (Panic IndexOutOfRange))"

definition buildTCPDestination :: "env \<Rightarrow> BackendRef list option \<Rightarrow> string \<Rightarrow> string
    \<Rightarrow> failure + RouteDestination list option" where
  "buildTCPDestination e forwardTo ns domain =
     (case forwardTo of
        None \<Rightarrow> Inr None
      | Some refs \<Rightarrow>
          let (weights, action) = tcp_select refs
          in case standardizeWeights (sort_Sort e) weights of
               Inl f \<Rightarrow> Inl (Panic f)
             | Inr r \<Rightarrow>
                 (case tcp_routes e ns domain (returned r) 0 action of
                    Inl f \<Rightarrow> Inl f
                  | Inr res \<Rightarrow> Inr (Some res)))"

section \<open>Header filters\<close>

text \<open>The string behind a filter type.\<close>

fun filter_type_name :: "HTTPRouteFilterType \<Rightarrow> string" where
  "filter_type_name HTTPRouteFilterRequestHeaderModifier = ''RequestHeaderModifier''"
| "filter_type_name HTTPRouteFilterRequestRedirect = ''RequestRedirect''"
| "filter_type_name HTTPRouteFilterRequestMirror = ''RequestMirror''"
| "filter_type_name (HTTPRouteFilterOther s) = s"

text \<open>\<open>headerListToMap\<close>: lower-cased names, the first entry of a name wins.\<close>

fun headerList_entries :: "env \<Rightarrow> HTTPHeader list \<Rightarrow> (string \<times> string) list \<Rightarrow> (string \<times> string) list" where
  "headerList_entries e [] res = res"
| "headerList_entries e ((name, val) # hl) res =
     (let k = strings_ToLower e name
      in if map_of res k \<noteq> None then headerList_entries e hl res
         else headerList_entries e hl (AList.update k val res))"

definition headerListToMap :: "env \<Rightarrow> HTTPHeader list \<Rightarrow> (string \<times> string) list option" where
  "headerListToMap e hl = (if hl = [] then None else Some (headerList_entries e hl []))"

definition createHeadersFilter :: "env \<Rightarrow> HTTPRequestHeaderFilter option \<Rightarrow> HeaderOperations option" where
  "createHeadersFilter e flt =
     (case flt of
        None \<Rightarrow> None
      | Some f \<Rightarrow> Some \<lparr>ops_Add = headerListToMap e (Add f), ops_Remove = Remove f,
                        ops_Set = headerListToMap e (Set f)\<rparr>)"

definition createRedirectFilter :: "HTTPRequestRedirectFilter option \<Rightarrow> HTTPRedirect option" where
  "createRedirectFilter flt =
     (case flt of
        None \<Rightarrow> None
      | Some f \<Rightarrow> Some
          \<lparr>RedirectCode = (case StatusCode f of Some c \<Rightarrow> to_uint32 c | None \<Rightarrow> 0),
           Authority = (case Hostname f of Some h \<Rightarrow> h | None \<Rightarrow> []),
           RedirectScheme = (case Scheme f of Some s \<Rightarrow> s | None \<Rightarrow> []),
           RedirectPortSel = (case RedirectPort f of
              Some p \<Rightarrow> RedirectPort_Port (to_uint32 p)
            | None \<Rightarrow> RedirectPort_DerivePort_FROM_REQUEST_PORT)\<rparr>)"

definition createMirrorFilter :: "env \<Rightarrow> BackendRef option \<Rightarrow> string \<Rightarrow> string
    \<Rightarrow> ConfigError + Destination option" where
  "createMirrorFilter e flt ns domain =
     (case flt of
        None \<Rightarrow> Inr None
      | Some ref \<Rightarrow>
          (case buildDestination e (ref\<lparr>Weight := Some 1\<rparr>) ns domain of
             Inl err \<Rightarrow> Inl err
           | Inr dst \<Rightarrow> Inr (Some dst)))"

section \<open>HTTP destinations\<close>

text \<open>The first loop of \<open>buildHTTPDestination\<close>.\<close>

fun http_select :: "HTTPBackendRef list \<Rightarrow> bool \<Rightarrow> int list \<times> HTTPBackendRef list" where
  "http_select [] totalZero = ([], [])"
| "http_select (w # forwardTo) totalZero =
     (let (weights, action) = http_select forwardTo totalZero
      in if weight_of (BackendRef w) = 0 \<and> \<not> totalZero then (weights, action)
         else (weight_of (BackendRef w) # weights, w # action))"

text \<open>The loop over the filters of one backend reference, on the destination \<open>rd\<close>.\<close>

fun backend_filters :: "env \<Rightarrow> HTTPRouteFilter list \<Rightarrow> HTTPRouteDestination
    \<Rightarrow> ConfigError + HTTPRouteDestination" where
  "backend_filters e [] rd = Inr rd"
| "backend_filters e (flt # filters) rd =
     (case Type flt of
        HTTPRouteFilterRequestHeaderModifier \<Rightarrow>
          backend_filters e filters
            (rd\<lparr>hrd_Headers := createHeadersFilter e (RequestHeaderModifier flt)\<rparr>)
      | _ \<Rightarrow> Inl \<lparr>Reason = InvalidFilter,
                  Message = Sprintf ''unsupported filter type %q'' [filter_type_name (Type flt)]\<rparr>)"


text \<open>The second loop, from index \<open>i\<close> on.\<close>

fun http_routes :: "env \<Rightarrow> string \<Rightarrow> string \<Rightarrow> int list \<Rightarrow> nat \<Rightarrow> HTTPBackendRef list
    \<Rightarrow> failure + HTTPRouteDestination list" where
  "http_routes e ns domain weights i [] = Inr []"
| "http_routes e ns domain weights i (fwd # action) =
     (case buildDestination e (BackendRef fwd) ns domain of
        Inl err \<Rightarrow> Inl (Failed err)
      | Inr dst \<Rightarrow>
          if i < length weights then
            (case backend_filters e (Filters fwd)
                    \<lparr>hrd_Destination = dst, hrd_Weight = wrap32 (weights ! i), hrd_Headers = None\<rparr> of
               Inl err \<Rightarrow> Inl (Failed err)
             | Inr rd \<Rightarrow>
                 (case http_routes e ns domain weights (Suc i) action of
                    Inl f \<Rightarrow> Inl f
                  | Inr res \<Rightarrow> Inr (rd # res)))
          else Inl (Panic IndexOutOfRange))"

definition buildHTTPDestination :: "env \<Rightarrow> HTTPBackendRef list option \<Rightarrow> string \<Rightarrow> string \<Rightarrow> bool
    \<Rightarrow> failure + HTTPRouteDestination list option" where
  "buildHTTPDestination e forwardTo ns domain totalZero =
     (case forwardTo of
        None \<Rightarrow> Inr None
      | Some refs \<Rightarrow>
          let (weights, action) = http_select refs totalZero
          in case standardizeWeights (sort_Sort e) weights of
               Inl f \<Rightarrow> Inl (Panic f)
             | Inr r \<Rightarrow>
                 (case http_routes e ns domain (returned r) 0 action of
                    Inl f \<Rightarrow> Inl f
                  | Inr res \<Rightarrow> Inr (Some res)))"

section \<open>Matches\<close>

definition prefixMatchRegex :: string where
  "prefixMatchRegex = ''(('' @ [CHR 0x5C] @ ''/).*)?''"

definition TrimSuffix_slash :: "string \<Rightarrow> string" where
  "TrimSuffix_slash path = (if path \<noteq> [] \<and> last path = CHR ''/'' then butlast path else path)"

definition createURIMatch :: "env \<Rightarrow> HTTPRouteMatch \<Rightarrow> failure + StringMatch option" where
  "createURIMatch e match =
     (case Path match of
        None \<Rightarrow> Inl (Panic NilDereference)
      | Some p \<Rightarrow>
          let tp = (case PathType p of Some t \<Rightarrow> t | None \<Rightarrow> PathMatchPathPrefix);
              dest = (case PathValue p of Some v \<Rightarrow> v | None \<Rightarrow> ''/'')
          in case tp of
               PathMatchPathPrefix \<Rightarrow>
                 (case PathValue p of
                    None \<Rightarrow> Inl (Panic NilDereference)
                  | Some path \<Rightarrow>
                      if path = ''/'' then Inr (Some (Prefix path))
                      else Inr (Some (Regex (regexp_QuoteMeta e (TrimSuffix_slash path) @ prefixMatchRegex))))
             | PathMatchExact \<Rightarrow> Inr (Some (Exact dest))
             | PathMatchRegularExpression \<Rightarrow> Inr (Some (Regex dest))
             | PathMatchOther s \<Rightarrow>
                 Inl (Failed \<lparr>Reason = InvalidConfiguration,
                   Message = Sprintf ''unknown type: %q is not supported Path match type'' [s]\<rparr>))"

fun headers_entries :: "HTTPHeaderMatch list \<Rightarrow> (string \<times> StringMatch) list
    \<Rightarrow> ConfigError + (string \<times> StringMatch) list" where
  "headers_entries [] res = Inr res"
| "headers_entries (header # headers) res =
     (case (case HeaderType header of Some t \<Rightarrow> t | None \<Rightarrow> HeaderMatchExact) of
        HeaderMatchExact \<Rightarrow>
          headers_entries headers (AList.update (HeaderName header) (Exact (HeaderValue header)) res)
      | HeaderMatchRegularExpression \<Rightarrow>
          headers_entries headers (AList.update (HeaderName header) (Regex (HeaderValue header)) res)
      | HeaderMatchOther s \<Rightarrow>
          Inl \<lparr>Reason = InvalidConfiguration,
               Message = Sprintf ''unknown type: %q is not supported HeaderMatch type'' [s]\<rparr>)"

definition createHeadersMatch :: "HTTPRouteMatch \<Rightarrow> failure + (string \<times> StringMatch) list option" where
  "createHeadersMatch match =
     (case headers_entries (Headers match) [] of
        Inl err \<Rightarrow> Inl (Failed err)
      | Inr res \<Rightarrow> if length res = 0 then Inr None else Inr (Some res))"

fun queryParams_entries :: "HTTPQueryParamMatch list \<Rightarrow> (string \<times> StringMatch) list
    \<Rightarrow> ConfigError + (string \<times> StringMatch) list" where
  "queryParams_entries [] res = Inr res"
| "queryParams_entries (qp # qps) res =
     (case (case QueryParamType qp of Some t \<Rightarrow> t | None \<Rightarrow> QueryParamMatchExact) of
        QueryParamMatchExact \<Rightarrow>
          queryParams_entries qps (AList.update (QueryParamName qp) (Exact (QueryParamValue qp)) res)
      | QueryParamMatchRegularExpression \<Rightarrow>
          queryParams_entries qps (AList.update (QueryParamName qp) (Regex (QueryParamValue qp)) res)
      | QueryParamMatchOther s \<Rightarrow>
          Inl \<lparr>Reason = InvalidConfiguration,
               Message = Sprintf ''unknown type: %q is not supported QueryParams type'' [s]\<rparr>)"

definition createQueryParamsMatch :: "HTTPRouteMatch \<Rightarrow> failure + (string \<times> StringMatch) list option" where
  "createQueryParamsMatch match =
     (case queryParams_entries (QueryParams match) [] of
        Inl err \<Rightarrow> Inl (Failed err)
      | Inr res \<Rightarrow> if length res = 0 then Inr None else Inr (Some res))"

definition createMethodMatch :: "HTTPRouteMatch \<Rightarrow> failure + StringMatch option" where
  "createMethodMatch match =
     (case Method match of None \<Rightarrow> Inr None | Some m \<Rightarrow> Inr (Some (Exact m)))"

section \<open>HTTP routes\<close>

definition hostnameToStringList :: "string list \<Rightarrow> string list" where
  "hostnameToStringList h = (if length h = 0 then [''*''] else h)"

text \<open>The four conversions of one match, in the order of the source.\<close>

definition convert_match :: "env \<Rightarrow> HTTPRouteMatch \<Rightarrow> failure + HTTPMatchRequest" where
  "convert_match e match =
     (case createURIMatch e match of
        Inl f \<Rightarrow> Inl f
      | Inr uri \<Rightarrow>
     (case createHeadersMatch match of
        Inl f \<Rightarrow> Inl f
      | Inr headers \<Rightarrow>
     (case createQueryParamsMatch match of
        Inl f \<Rightarrow> Inl f
      | Inr qp \<Rightarrow>
     (case createMethodMatch match of
        Inl f \<Rightarrow> Inl f
      | Inr method \<Rightarrow>
          Inr \<lparr>Uri = uri, MatchHeaders = headers, MatchQueryParams = qp, MatchMethod = method\<rparr>))))"

fun convert_matches :: "env \<Rightarrow> HTTPRouteMatch list \<Rightarrow> failure + HTTPMatchRequest list" where
  "convert_matches e [] = Inr []"
| "convert_matches e (match # matches) =
     (case convert_match e match of
        Inl f \<Rightarrow> Inl f
      | Inr m \<Rightarrow>
          (case convert_matches e matches of
             Inl f \<Rightarrow> Inl f
           | Inr ms \<Rightarrow> Inr (m # ms)))"

text \<open>The loop over the filters of a rule, on the route \<open>vs\<close>.\<close>

fun rule_filters :: "env \<Rightarrow> string \<Rightarrow> string \<Rightarrow> HTTPRouteFilter list \<Rightarrow> HTTPRoute
    \<Rightarrow> failure + HTTPRoute" where
  "rule_filters e ns domain [] vs = Inr vs"
| "rule_filters e ns domain (flt # filters) vs =
     (case Type flt of
        HTTPRouteFilterRequestHeaderModifier \<Rightarrow>
          rule_filters e ns domain filters
            (vs\<lparr>vs_Headers := createHeadersFilter e (RequestHeaderModifier flt)\<rparr>)
      | HTTPRouteFilterRequestRedirect \<Rightarrow>
          rule_filters e ns domain filters
            (vs\<lparr>vs_Redirect := createRedirectFilter (RequestRedirect flt)\<rparr>)
      | HTTPRouteFilterRequestMirror \<Rightarrow>
          (case createMirrorFilter e (RequestMirror flt) ns domain of
             Inl err \<Rightarrow> Inl (Failed err)
           | Inr mirror \<Rightarrow> rule_filters e ns domain filters (vs\<lparr>vs_Mirror := mirror\<rparr>))
      | HTTPRouteFilterOther s \<Rightarrow>
          Inl (Failed \<lparr>Reason = InvalidFilter,
                 Message = Sprintf ''unsupported filter type %q'' [s]\<rparr>))"

text \<open>
  The loop that computes \<open>zero\<close> (lines 230 to 236): it stays true unless some
  reference has no weight or a weight different from 0.
\<close>

fun zero_weights :: "HTTPBackendRef list \<Rightarrow> bool" where
  "zero_weights [] = True"
| "zero_weights (w # refs) =
     (case Weight (BackendRef w) of
        None \<Rightarrow> False
      | Some x \<Rightarrow> if x \<noteq> 0 then False else zero_weights refs)"

definition abort_503 :: HTTPFaultInjection_Abort where
  "abort_503 = \<lparr>Percentage = 100, HttpStatus = 503\<rparr>"

text \<open>The body of the loop over the rules.\<close>

definition convert_rule :: "env \<Rightarrow> string \<Rightarrow> string \<Rightarrow> HTTPRouteRule \<Rightarrow> failure + HTTPRoute" where
  "convert_rule e ns domain r =
     (case convert_matches e (Matches r) of
        Inl f \<Rightarrow> Inl f
      | Inr ms \<Rightarrow>
     (case rule_filters e ns domain (RuleFilters r)
             \<lparr>vs_Match = ms, vs_Headers = None, vs_Redirect = None, vs_Mirror = None,
              vs_Fault = None, vs_Route = None\<rparr> of
        Inl f \<Rightarrow> Inl f
      | Inr vs \<Rightarrow>
          let zero = zero_weights (case BackendRefs r of None \<Rightarrow> [] | Some refs \<Rightarrow> refs);
              vs' = (if zero \<and> vs_Redirect vs = None then vs\<lparr>vs_Fault := Some abort_503\<rparr> else vs)
          in case buildHTTPDestination e (BackendRefs r) ns domain zero of
               Inl f \<Rightarrow> Inl f
             | Inr route \<Rightarrow> Inr (vs'\<lparr>vs_Route := route\<rparr>)))"

fun convert_rules :: "env \<Rightarrow> string \<Rightarrow> string \<Rightarrow> HTTPRouteRule list \<Rightarrow> failure + HTTPRoute list" where
  "convert_rules e ns domain [] = Inr []"
| "convert_rules e ns domain (r # rules) =
     (case convert_rule e ns domain r of
        Inl f \<Rightarrow> Inl f
      | Inr vs \<Rightarrow>
          (case convert_rules e ns domain rules of
             Inl f \<Rightarrow> Inl f
           | Inr httproutes \<Rightarrow> Inr (vs # httproutes)))"

text \<open>
  \<open>buildHTTPVirtualServices\<close> for a route in namespace \<open>ns\<close>. \<open>gatewayNames\<close> is what
  \<open>referencesToInternalNames\<close> gives for the parent references, which the routes do not
  depend on. A returned error is the one handed to \<open>reportError\<close>, with no
  \<open>VirtualService\<close> generated.
\<close>

definition buildHTTPVirtualServices :: "env \<Rightarrow> string \<Rightarrow> HTTPRouteSpec \<Rightarrow> string list \<Rightarrow> string
    \<Rightarrow> failure + VirtualService option" where
  "buildHTTPVirtualServices e ns route gatewayNames domain =
     (case convert_rules e ns domain (Rules route) of
        Inl f \<Rightarrow> Inl f
      | Inr httproutes \<Rightarrow>
          if length gatewayNames = 0 then Inr None
          else Inr (Some \<lparr>Hosts = hostnameToStringList (Hostnames route),
                          Gateways = gatewayNames, Http = httproutes\<rparr>))"

section \<open>Objects for evaluation\<close>

text \<open>An environment, with identity functions for the two string functions.\<close>

definition example_env :: env where
  "example_env = \<lparr>sort_Sort = insertion_sort_desc, strings_ToLower = (\<lambda>s. s),
     regexp_QuoteMeta = (\<lambda>s. s), gvk_Service_Kind = ''Service'',
     gvk_ServiceEntry_Group = ''networking.istio.io''\<rparr>"

definition example_backend :: "string \<Rightarrow> int option \<Rightarrow> BackendRef" where
  "example_backend n w = \<lparr>Group = None, Kind = None, Name = n, Namespace = None,
     Port = Some 80, Weight = w\<rparr>"

definition example_rule :: "int option \<Rightarrow> int option \<Rightarrow> HTTPRouteRule" where
  "example_rule w1 w2 = \<lparr>Matches = [], RuleFilters = [],
     BackendRefs = Some [\<lparr>BackendRef = example_backend ''a'' w1, Filters = []\<rparr>,
                         \<lparr>BackendRef = example_backend ''b'' w2, Filters = []\<rparr>]\<rparr>"

definition example_route :: HTTPRouteSpec where
  "example_route = \<lparr>Hostnames = [], Rules = [example_rule (Some 0) (Some 0), example_rule (Some 0) None]\<rparr>"

definition example_destination :: "string \<Rightarrow> int \<Rightarrow> HTTPRouteDestination" where
  "example_destination h w = \<lparr>hrd_Destination = \<lparr>Host = h, PortNumber = 80\<rparr>,
     hrd_Weight = w, hrd_Headers = None\<rparr>"

definition example_VirtualService :: VirtualService where
  "example_VirtualService = \<lparr>Hosts = [''*''], Gateways = [''gw''],
     Http = [\<lparr>vs_Match = [], vs_Headers = None, vs_Redirect = None, vs_Mirror = None,
              vs_Fault = Some \<lparr>Percentage = 100, HttpStatus = 503\<rparr>,
              vs_Route = Some [example_destination ''a.ns.svc.cluster.local'' 50,
                               example_destination ''b.ns.svc.cluster.local'' 50]\<rparr>,
             \<lparr>vs_Match = [], vs_Headers = None, vs_Redirect = None, vs_Mirror = None,
              vs_Fault = None,
              vs_Route = Some [example_destination ''b.ns.svc.cluster.local'' 0]\<rparr>]\<rparr>"

section \<open>Notions for the statements and the proofs\<close>

text \<open>The two components the loop body computes, when the division is defined.\<close>

definition rounded_of :: "int \<Rightarrow> int \<Rightarrow> int" where
  "rounded_of tot w = f64_to_int (f64_mul (rnd64 (f64_of_int w / f64_of_int tot)) 100)"

definition remainder_of :: "int \<Rightarrow> int \<Rightarrow> rat" where
  "remainder_of tot w =
     f64_sub (f64_mul (rnd64 (f64_of_int w / f64_of_int tot)) 100) (f64_of_int (rounded_of tot w))"

text \<open>The effect of the loop over \<open>order\<close> on the results.\<close>

definition bump :: "nat list \<Rightarrow> int list \<Rightarrow> int list" where
  "bump idxs results = fold (\<lambda>i rs. rs[i := wrap64 (rs ! i + 1)]) idxs results"

text \<open>The weights and the total after the all-zero fallback (lines 673 to 680).\<close>

definition fallback_weights :: "int list \<Rightarrow> int list" where
  "fallback_weights weights = (if intSum weights = 0 then map (\<lambda>_. 1) weights else weights)"

definition fallback_total :: "int list \<Rightarrow> int" where
  "fallback_total weights = (if intSum weights = 0 then int (length weights) else intSum weights)"

text \<open>The percentage the loop body computes before truncation: \<open>perc * 100\<close>.\<close>

definition scaled_of :: "int \<Rightarrow> int \<Rightarrow> rat" where
  "scaled_of tot w = f64_mul (rnd64 (f64_of_int w / f64_of_int tot)) 100"

text \<open>The exact percentage of a weight.\<close>

definition exact_percentage :: "int \<Rightarrow> int \<Rightarrow> rat" where
  "exact_percentage tot w = 100 * of_int w / of_int tot"

text \<open>The number of units the distribution loop hands out, and the indices that get one.\<close>

definition remaining_of :: "int \<Rightarrow> int list \<Rightarrow> int" where
  "remaining_of tot ws = wrap64 (100 - intSum (map (rounded_of tot) ws))"

definition incremented :: "sorter \<Rightarrow> int \<Rightarrow> int list \<Rightarrow> nat list" where
  "incremented srt tot ws =
     take (nat (remaining_of tot ws)) (argsort srt (map (remainder_of tot) ws))"

text \<open>
  The largest remainder method as the specification words it, on exact rationals: the
  floor of the exact percentage, and its fractional remainder.
\<close>

definition spec_floor :: "int \<Rightarrow> int \<Rightarrow> int" where
  "spec_floor tot w = \<lfloor>exact_percentage tot w\<rfloor>"

definition spec_remainder :: "int \<Rightarrow> int \<Rightarrow> rat" where
  "spec_remainder tot w = exact_percentage tot w - of_int (spec_floor tot w)"

text \<open>A float remainder at or above this bound belongs to a percentage that fell short.\<close>

definition fell_short :: "int \<Rightarrow> int \<Rightarrow> bool" where
  "fell_short tot w \<longleftrightarrow> 1 - (1 / 2 ^ 43 + 1 / 2 ^ 54) \<le> remainder_of tot w"

text \<open>
  An outcome of the method: every entry is the floor of its exact percentage or one more;
  the entries that got one more number \<open>100 - sum(floor)\<close>; and no entry that got one
  has a smaller exact remainder than an entry that got none. The order among equal
  remainders is left open.
\<close>

definition largest_remainder_outcome :: "int \<Rightarrow> int list \<Rightarrow> int list \<Rightarrow> bool" where
  "largest_remainder_outcome tot ws out \<longleftrightarrow>
     length out = length ws \<and>
     list_all (\<lambda>i. out ! i = spec_floor tot (ws ! i) \<or> out ! i = spec_floor tot (ws ! i) + 1)
       [0..<length ws] \<and>
     int (length (filter (\<lambda>i. out ! i = spec_floor tot (ws ! i) + 1) [0..<length ws]))
       = 100 - sum_list (map (spec_floor tot) ws) \<and>
     list_all (\<lambda>i. list_all (\<lambda>j.
         out ! i = spec_floor tot (ws ! i) + 1 \<and> out ! j = spec_floor tot (ws ! j)
           \<longrightarrow> spec_remainder tot (ws ! j) \<le> spec_remainder tot (ws ! i))
       [0..<length ws]) [0..<length ws]"

section \<open>Properties of the rounding\<close>

text \<open>
  Some values every binary64 implementation agrees on: the doubles nearest to \<open>0.1\<close>,
  \<open>0.29\<close> and \<open>1/3\<close>, the product \<open>0.29 * 100 = 28.999999999999996\<close>, two ties
  above \<open>2^53\<close> that go to the even significand, and two conversions.
\<close>

lemma rnd64_known_values:
  "rnd64 (1 / 10) = 3602879701896397 / 36028797018963968"
  "rnd64 (29 / 100) = 5224175567749775 / 18014398509481984"
  "rnd64 (1 / 3) = 6004799503160661 / 18014398509481984"
  "f64_mul (rnd64 (29 / 100)) 100 = 8162774324609023 / 281474976710656"
  "rnd64 9007199254740993 = 9007199254740992"
  "rnd64 9007199254740995 = 9007199254740996"
  "f64_to_int (- 7 / 2) = - 3"
  "wrap64 (2 ^ 63) = - (2 ^ 63)"
  by code_simp+

lemma pow2_powi: "pow2 k = 2 powi k"
proof (cases "0 \<le> k")
  case True
  then show ?thesis by (simp add: pow2_def power_int_def)
next
  case False
  then show ?thesis by (simp add: pow2_def power_int_def inverse_eq_divide power_one_over)
qed

lemma pow2_pos [simp]: "0 < pow2 k"
  by (simp add: pow2_powi)

lemma pow2_add: "pow2 (i + j) = pow2 i * pow2 j"
  by (simp add: pow2_powi power_int_add)

lemma pow2_mono: "i \<le> j \<Longrightarrow> pow2 i \<le> pow2 j"
  by (simp add: pow2_powi power_int_increasing)

lemma pow2_nat: "pow2 (int n) = 2 ^ n"
  by (simp add: pow2_def)

lemma pow2_less_cancel: "pow2 i < pow2 j \<Longrightarrow> i < j"
  by (metis pow2_mono not_le)

lemma pow2_strict_mono: "i < j \<Longrightarrow> pow2 i < pow2 j"
  by (simp add: pow2_powi power_int_strict_increasing)

lemma pow2_m1022_le: "pow2 (- 1022) \<le> 1 / 2 ^ 70"
proof -
  have "pow2 (- 1022) \<le> pow2 (- 70)" by (rule pow2_mono) simp
  then show ?thesis by (simp add: pow2_def)
qed

lemma bitlen_pow2_bounds:
  assumes "0 < a"
  shows "pow2 (bitlen a - 1) \<le> of_int a" and "of_int a < pow2 (bitlen a)"
proof -
  from assms have b1: "1 \<le> bitlen a" by (auto simp: bitlen_alt_def)
  from bitlen_bounds [OF assms]
  have lo: "2 ^ nat (bitlen a - 1) \<le> a" and hi: "a < 2 ^ nat (bitlen a)" by auto
  have "pow2 (bitlen a - 1) = of_int (2 ^ nat (bitlen a - 1))"
    using b1 by (simp add: pow2_def)
  also have "\<dots> \<le> of_int a" using lo by (simp only: of_int_le_iff)
  finally show "pow2 (bitlen a - 1) \<le> of_int a" .
  have "(of_int a :: rat) < of_int (2 ^ nat (bitlen a))" using hi by (simp only: of_int_less_iff)
  also have "\<dots> = pow2 (bitlen a)" using b1 by (simp add: pow2_def)
  finally show "of_int a < pow2 (bitlen a)" .
qed

lemma f64_exponent_bounds:
  assumes "0 < x"
  shows "pow2 (f64_exponent x) \<le> x" and "x < pow2 (f64_exponent x + 1)"
proof -
  obtain a b where q: "quotient_of x = (a, b)" by (cases "quotient_of x")
  then have b: "0 < b" and x: "x = of_int a / of_int b"
    by (auto simp: quotient_of_denom_pos quotient_of_div)
  from assms x b have a: "0 < a" by (simp add: zero_less_divide_iff)
  define d where "d = bitlen a - bitlen b"
  note A = bitlen_pow2_bounds [OF a] and B = bitlen_pow2_bounds [OF b]
  have bpos: "(0::rat) < of_int b" using b by simp
  have "x * of_int b = of_int a" using x bpos by simp
  have "x < pow2 (d + 1)"
  proof -
    have "of_int a < pow2 (bitlen a)" by (rule A)
    also have "\<dots> = pow2 (d + 1) * pow2 (bitlen b - 1)"
      by (simp add: d_def flip: pow2_add)
    also have "\<dots> \<le> pow2 (d + 1) * of_int b"
      using B(1) by (simp add: mult_left_mono less_imp_le)
    finally show ?thesis using bpos x by (simp add: pos_divide_less_eq)
  qed
  moreover have "pow2 (d - 1) \<le> x"
  proof -
    have "pow2 (d - 1) * of_int b \<le> pow2 (d - 1) * pow2 (bitlen b)"
      using B(2) by (simp add: mult_left_mono less_imp_le)
    also have "\<dots> = pow2 (bitlen a - 1)"
      by (simp add: d_def flip: pow2_add)
    also have "\<dots> \<le> of_int a" by (rule A)
    finally show ?thesis using bpos x by (simp add: pos_le_divide_eq)
  qed
  moreover have "f64_exponent x = (if pow2 d \<le> x then d else d - 1)"
    by (simp add: f64_exponent_def q d_def Let_def)
  ultimately show "pow2 (f64_exponent x) \<le> x" and "x < pow2 (f64_exponent x + 1)"
    by (auto simp: not_le)
qed

lemma f64_exponent_unique:
  assumes "pow2 e \<le> x" and "x < pow2 (e + 1)"
  shows "f64_exponent x = e"
proof -
  have x: "0 < x" using assms(1) pow2_pos [of e] by linarith
  note b = f64_exponent_bounds [OF x]
  have "pow2 e < pow2 (f64_exponent x + 1)" using assms(1) b(2) by linarith
  then have "e < f64_exponent x + 1" by (rule pow2_less_cancel)
  moreover have "pow2 (f64_exponent x) < pow2 (e + 1)" using assms(2) b(1) by linarith
  then have "f64_exponent x < e + 1" by (rule pow2_less_cancel)
  ultimately show ?thesis by simp
qed

lemma round_even_bounds: "\<bar>of_int (round_even m) - m\<bar> \<le> 1 / 2"
proof -
  have f: "of_int \<lfloor>m\<rfloor> \<le> m" "m < of_int \<lfloor>m\<rfloor> + 1" by linarith+
  show ?thesis
    unfolding round_even_def Let_def using f
    by (simp add: abs_le_iff)
qed

lemma round_even_of_int [simp]: "round_even (of_int k) = k"
  by (simp add: round_even_def)

lemma rnd64_minus: "rnd64 (- x) = - rnd64 x"
  by (simp add: rnd64_def Let_def)

lemma rnd64_zero [simp]: "rnd64 0 = 0"
  by (simp add: rnd64_def)

lemma rnd64_pos_normal:
  assumes "pow2 (- 1022) \<le> x"
  shows "rnd64 x = of_int (round_even (x / pow2 (f64_exponent x - 52))) * pow2 (f64_exponent x - 52)"
proof -
  have x: "0 < x" using assms pow2_pos [of "- 1022"] by linarith
  have "pow2 (- 1022) < pow2 (f64_exponent x + 1)"
    using assms f64_exponent_bounds(2) [OF x] by linarith
  then have "- 1022 \<le> f64_exponent x" using pow2_less_cancel by fastforce
  then have "max (f64_exponent x) (- 1022) = f64_exponent x" by simp
  then show ?thesis using x by (simp add: rnd64_def Let_def)
qed

lemma rnd64_abs_err_pos:
  assumes "pow2 (- 1022) \<le> x"
  shows "\<bar>rnd64 x - x\<bar> \<le> x / 2 ^ 53"
proof -
  have x: "0 < x" using assms pow2_pos [of "- 1022"] by linarith
  define e where "e = f64_exponent x"
  define ulp where "ulp = pow2 (e - 52)"
  have ulp: "0 < ulp" by (simp add: ulp_def)
  have r: "rnd64 x = of_int (round_even (x / ulp)) * ulp"
    using rnd64_pos_normal [OF assms] by (simp add: ulp_def e_def)
  have "rnd64 x - x = (of_int (round_even (x / ulp)) - x / ulp) * ulp"
    using ulp by (simp add: r algebra_simps)
  then have "\<bar>rnd64 x - x\<bar> = \<bar>of_int (round_even (x / ulp)) - x / ulp\<bar> * ulp"
    using ulp by (simp add: abs_mult)
  also have "\<dots> \<le> 1 / 2 * ulp"
    using round_even_bounds [of "x / ulp"] ulp by (simp add: mult_right_mono)
  also have "\<dots> = pow2 e * pow2 (- 53)"
  proof -
    have "ulp = pow2 e * pow2 (- 52)" by (simp add: ulp_def flip: pow2_add)
    moreover have "pow2 (- 52) = 2 * pow2 (- 53)" by (simp add: pow2_def)
    ultimately show ?thesis by simp
  qed
  also have "\<dots> \<le> x * pow2 (- 53)"
    using f64_exponent_bounds(1) [OF x] by (simp add: e_def mult_right_mono less_imp_le)
  also have "\<dots> = x / 2 ^ 53" by (simp add: pow2_def)
  finally show ?thesis .
qed

lemma rnd64_rel_err:
  assumes "pow2 (- 1022) \<le> \<bar>x\<bar>"
  shows "\<bar>rnd64 x - x\<bar> \<le> \<bar>x\<bar> / 2 ^ 53"
proof (cases "0 \<le> x")
  case True
  then show ?thesis using rnd64_abs_err_pos [of x] assms by simp
next
  case False
  then have "pow2 (- 1022) \<le> - x" using assms by simp
  from rnd64_abs_err_pos [OF this] False show ?thesis
    by (simp add: rnd64_minus abs_minus_commute)
qed

lemma rnd64_nonneg: "0 \<le> x \<Longrightarrow> 0 \<le> rnd64 x"
proof -
  assume x: "0 \<le> x"
  have "0 \<le> round_even m" if "0 \<le> m" for m
    using that by (auto simp: round_even_def Let_def)
  then show ?thesis using x
    by (simp add: rnd64_def Let_def less_imp_le)
qed

lemma rnd64_between:
  assumes "pow2 (- 1022) \<le> x"
  shows "x * (1 - 1 / 2 ^ 53) \<le> rnd64 x" and "rnd64 x \<le> x * (1 + 1 / 2 ^ 53)"
proof -
  from rnd64_abs_err_pos [OF assms]
  have a: "rnd64 x - x \<le> x / 2 ^ 53" and b: "- (x / 2 ^ 53) \<le> rnd64 x - x"
    by linarith+
  have c: "x * (1 - 1 / 2 ^ 53) = x - x / 2 ^ 53" "x * (1 + 1 / 2 ^ 53) = x + x / 2 ^ 53"
    by (simp_all add: algebra_simps)
  show "x * (1 - 1 / 2 ^ 53) \<le> rnd64 x" unfolding c using b by linarith
  show "rnd64 x \<le> x * (1 + 1 / 2 ^ 53)" unfolding c using a by linarith
qed

text \<open>Rounding error of a value below 1: at most \<open>2^-54\<close>.\<close>

lemma rnd64_abs_err_unit:
  assumes "0 \<le> x" and "x < 1"
  shows "\<bar>rnd64 x - x\<bar> \<le> 1 / 2 ^ 54"
proof (cases "x = 0")
  case True
  then show ?thesis by simp
next
  case False
  then have x: "0 < x" using assms(1) by simp
  define e where "e = max (f64_exponent x) (- 1022)"
  define ulp where "ulp = pow2 (e - 52)"
  have ulp: "0 < ulp" by (simp add: ulp_def)
  have "pow2 (f64_exponent x) < pow2 0"
    using f64_exponent_bounds(1) [OF x] assms(2) by (simp add: pow2_def)
  then have "f64_exponent x < 0" by (rule pow2_less_cancel)
  then have e: "e \<le> - 1" by (simp add: e_def)
  have r: "rnd64 x = of_int (round_even (x / ulp)) * ulp"
    using x by (simp add: rnd64_def Let_def e_def ulp_def)
  have "rnd64 x - x = (of_int (round_even (x / ulp)) - x / ulp) * ulp"
    using ulp by (simp add: r algebra_simps)
  then have "\<bar>rnd64 x - x\<bar> = \<bar>of_int (round_even (x / ulp)) - x / ulp\<bar> * ulp"
    using ulp by (simp add: abs_mult)
  also have "\<dots> \<le> 1 / 2 * ulp"
    using round_even_bounds [of "x / ulp"] ulp by (simp add: mult_right_mono)
  also have "\<dots> \<le> 1 / 2 * pow2 (- 53)"
    using pow2_mono [of "e - 52" "- 53"] e by (simp add: ulp_def)
  also have "\<dots> = 1 / 2 ^ 54" by (simp add: pow2_def)
  finally show ?thesis .
qed

lemma f64_of_int_eq_0_iff: "f64_of_int i = 0 \<longleftrightarrow> i = 0"
proof
  assume z: "f64_of_int i = 0"
  show "i = 0"
  proof (rule ccontr)
    assume "i \<noteq> 0"
    then have "1 \<le> \<bar>i\<bar>" by linarith
    then have "(1::rat) \<le> of_int \<bar>i\<bar>" by (simp only: of_int_1_le_iff)
    then have "1 \<le> \<bar>of_int i :: rat\<bar>" by simp
    moreover have "pow2 (- 1022) \<le> 1" using pow2_mono [of "- 1022" 0] by (simp add: pow2_def)
    ultimately have "\<bar>rnd64 (of_int i) - of_int i\<bar> \<le> \<bar>of_int i :: rat\<bar> / 2 ^ 53"
      by (intro rnd64_rel_err) linarith
    with z have "\<bar>of_int i :: rat\<bar> \<le> \<bar>of_int i\<bar> / 2 ^ 53" by (simp add: f64_of_int_def)
    with \<open>1 \<le> \<bar>of_int i :: rat\<bar>\<close> show False by (simp add: field_simps)
  qed
qed (simp add: f64_of_int_def)

lemma f64_of_int_between:
  assumes "1 \<le> i"
  shows "of_int i * (1 - 1 / 2 ^ 53) \<le> f64_of_int i" and "f64_of_int i \<le> of_int i * (1 + 1 / 2 ^ 53)"
proof -
  have "(1::rat) \<le> of_int i" using assms by simp
  moreover have "(1 / 2 ^ 70 :: rat) \<le> 1" by simp
  ultimately have "pow2 (- 1022) \<le> of_int i" using pow2_m1022_le by linarith
  from rnd64_between [OF this]
  show "of_int i * (1 - 1 / 2 ^ 53) \<le> f64_of_int i" and "f64_of_int i \<le> of_int i * (1 + 1 / 2 ^ 53)"
    by (simp_all add: f64_of_int_def)
qed

text \<open>Integers up to \<open>2^52\<close> convert exactly.\<close>

lemma f64_of_int_exact:
  assumes "0 \<le> k" and "k < 2 ^ 52"
  shows "f64_of_int k = of_int k"
proof (cases "k = 0")
  case True
  then show ?thesis by (simp add: f64_of_int_def)
next
  case False
  then have k: "0 < k" using assms(1) by simp
  define x :: rat where "x = of_int k"
  have x: "0 < x" "1 \<le> x" using k by (simp_all add: x_def)
  define e where "e = f64_exponent x"
  have "pow2 0 < pow2 (e + 1)"
    using f64_exponent_bounds(2) [OF x(1)] x(2) by (simp add: e_def pow2_def)
  then have e0: "0 \<le> e" using pow2_less_cancel by fastforce
  have "x < pow2 52"
  proof -
    have "(of_int k :: rat) < of_int (2 ^ 52)" using assms(2) by (simp only: of_int_less_iff)
    then show ?thesis by (simp add: x_def pow2_def)
  qed
  then have "pow2 e < pow2 52" using f64_exponent_bounds(1) [OF x(1)] by (simp add: e_def)
  then have e52: "e < 52" by (rule pow2_less_cancel)
  define n where "n = nat (52 - e)"
  have ulp: "pow2 (e - 52) = 1 / 2 ^ n" using e52 by (simp add: pow2_def n_def)
  have "x / pow2 (e - 52) = of_int (k * 2 ^ n)" by (simp add: ulp x_def)
  then have "round_even (x / pow2 (e - 52)) = k * 2 ^ n" by (simp only: round_even_of_int)
  moreover have "max e (- 1022) = e" using e0 by simp
  ultimately have "rnd64 x = of_int (k * 2 ^ n) * (1 / 2 ^ n)"
    using x(1) by (simp add: rnd64_def Let_def e_def [symmetric] ulp)
  then show ?thesis by (simp add: f64_of_int_def x_def)
qed

section \<open>Properties of the sort\<close>

lemma Sort_contract_insertion_sort_desc: "Sort_contract insertion_sort_desc"
proof -
  have "sorted_wrt (\<lambda>a b. \<not> fst a < fst b) (sort_key (\<lambda>p. - fst p) xs)"
    for xs :: "(rat \<times> nat) list"
  proof -
    have "sorted (map (\<lambda>p. - fst p) (sort_key (\<lambda>p. - fst p) xs))" by simp
    then have "sorted_wrt (\<lambda>a b. - fst a \<le> - fst b) (sort_key (\<lambda>p. - fst p) xs)"
      by (simp add: sorted_map)
    then show ?thesis by (simp add: not_less)
  qed
  then show ?thesis by (simp add: Sort_contract_def insertion_sort_desc_def)
qed

lemma argsort_mset:
  assumes "Sort_contract srt"
  shows "mset (argsort srt n) = mset [0..<length n]"
proof -
  have "mset (srt (zip n [0..<length n])) = mset (zip n [0..<length n])"
    using assms by (simp add: Sort_contract_def)
  then have "mset (map snd (srt (zip n [0..<length n]))) = mset (map snd (zip n [0..<length n]))"
    by (rule mset_map [THEN trans, OF arg_cong [where f = "image_mset snd"], THEN trans, OF _ mset_map [symmetric]])
  also have "map snd (zip n [0..<length n]) = [0..<length n]" by simp
  finally show ?thesis by (simp only: argsort_def)
qed

lemma argsort_set: "Sort_contract srt \<Longrightarrow> set (argsort srt n) = {..<length n}"
  using argsort_mset [THEN arg_cong, of srt set_mset n] by (simp add: atLeast0LessThan)

lemma argsort_distinct: "Sort_contract srt \<Longrightarrow> distinct (argsort srt n)"
  using argsort_mset [of srt n] by (metis distinct_upt mset_eq_imp_distinct_iff)

lemma argsort_length: "Sort_contract srt \<Longrightarrow> length (argsort srt n) = length n"
  using argsort_mset [THEN arg_cong, of srt size n] by simp

lemma argsort_Nil: "Sort_contract srt \<Longrightarrow> argsort srt [] = []"
  using argsort_length [of srt "[]"] by simp

lemma argsort_sorted:
  assumes "Sort_contract srt"
  shows "sorted_wrt (\<lambda>i j. \<not> n ! i < n ! j) (argsort srt n)"
proof -
  let ?ys = "srt (zip n [0..<length n])"
  have s: "sorted_wrt (\<lambda>a b. \<not> fst a < fst b) ?ys"
    using assms by (simp add: Sort_contract_def)
  have "set ?ys = set (zip n [0..<length n])"
    using assms by (metis Sort_contract_def mset_eq_setD)
  then have key: "fst p = n ! snd p" if "p \<in> set ?ys" for p
    using that by (auto simp: set_zip)
  have "sorted_wrt (\<lambda>a b. \<not> n ! snd a < n ! snd b) ?ys"
    by (rule sorted_wrt_mono_rel [OF _ s]) (simp add: key)
  then show ?thesis by (simp add: argsort_def sorted_wrt_map)
qed

section \<open>Lists\<close>

lemma sorted_wrt_partition:
  assumes "sorted_wrt R xs"
    and "\<And>x y. x \<in> set xs \<Longrightarrow> y \<in> set xs \<Longrightarrow> \<not> P x \<Longrightarrow> P y \<Longrightarrow> \<not> R x y"
  shows "xs = filter P xs @ filter (\<lambda>x. \<not> P x) xs"
  using assms
proof (induction xs)
  case Nil
  then show ?case by simp
next
  case (Cons x xs)
  have IH: "xs = filter P xs @ filter (\<lambda>x. \<not> P x) xs"
    using Cons.prems by (intro Cons.IH) auto
  show ?case
  proof (cases "P x")
    case True
    then show ?thesis using IH by simp
  next
    case False
    have "\<not> P y" if "y \<in> set xs" for y
    proof
      assume "P y"
      then have "\<not> R x y" using Cons.prems(2) [of x y] False that by simp
      moreover have "R x y" using Cons.prems(1) that by simp
      ultimately show False by simp
    qed
    then have "filter P xs = []" "filter (\<lambda>x. \<not> P x) xs = xs"
      by (simp_all add: filter_empty_conv filter_id_conv)
    then show ?thesis using False by simp
  qed
qed

lemma take_drop_sorted_wrt:
  assumes "sorted_wrt R xs" and "x \<in> set (take k xs)" and "y \<in> set xs" and "y \<notin> set (take k xs)"
  shows "R x y"
proof -
  have "y \<in> set (drop k xs)" using assms(3,4) by (metis Un_iff append_take_drop_id set_append)
  moreover have "sorted_wrt R (take k xs @ drop k xs)" using assms(1) by simp
  ultimately show ?thesis using assms(2) unfolding sorted_wrt_append by blast
qed

lemma filter_prefix_take:
  assumes "xs = filter P xs @ ys" and "length (filter P xs) \<le> k"
  shows "set (filter P xs) \<subseteq> set (take k xs)"
proof -
  have "take (length (filter P xs)) xs = filter P xs"
    by (subst (2) assms(1)) simp
  then have "set (filter P xs) = set (take (length (filter P xs)) xs)" by simp
  also have "\<dots> \<subseteq> set (take k xs)" using assms(2) by (rule set_take_subset_set_take)
  finally show ?thesis .
qed

lemma sum_list_indicator:
  assumes "\<forall>x\<in>set xs. b x = 0 \<or> b x = (1::int)"
  shows "sum_list (map b xs) = int (length (filter (\<lambda>x. b x = 1) xs))"
  using assms by (induction xs) auto

lemma length_filter_perm:
  assumes "mset xs = mset ys"
  shows "length (filter P xs) = length (filter P ys)"
proof -
  have "mset (filter P xs) = mset (filter P ys)" using assms by (simp only: mset_filter)
  then show ?thesis by (rule mset_eq_length)
qed

lemma length_filter_nth:
  "length (filter (\<lambda>i. P (xs ! i)) [0..<length xs]) = length (filter P xs)"
proof -
  have "filter P (map ((!) xs) [0..<length xs]) = map ((!) xs) (filter (P \<circ> (!) xs) [0..<length xs])"
    by (rule filter_map)
  then have "length (filter P xs) = length (filter (P \<circ> (!) xs) [0..<length xs])"
    by (simp add: map_nth)
  then show ?thesis by (simp add: comp_def)
qed

section \<open>The loops of the standardizer\<close>

lemma wrap64_id: "is_int64 x \<Longrightarrow> wrap64 x = x"
  by (simp add: wrap64_def is_int64_def)

lemma is_int64_wrap64 [simp]: "is_int64 (wrap64 x)"
  by (simp add: wrap64_def is_int64_def)

lemma foldl_wrap64_sum:
  assumes "\<forall>w\<in>set ws. 0 \<le> w" and "0 \<le> a" and "a + sum_list ws < 2 ^ 63"
  shows "foldl (\<lambda>r i. wrap64 (r + i)) a ws = a + sum_list ws"
  using assms
proof (induction ws arbitrary: a)
  case Nil
  then show ?case by simp
next
  case (Cons w ws)
  have s: "0 \<le> sum_list ws" using Cons.prems(1) by (simp add: sum_list_nonneg)
  have "is_int64 (a + w)" using Cons.prems s by (simp add: is_int64_def)
  then have "wrap64 (a + w) = a + w" by (rule wrap64_id)
  moreover have "foldl (\<lambda>r i. wrap64 (r + i)) (a + w) ws = a + w + sum_list ws"
    using Cons.prems by (intro Cons.IH) simp_all
  ultimately show ?case by simp
qed

lemma intSum_sum_list:
  "\<forall>w\<in>set ws. 0 \<le> w \<Longrightarrow> sum_list ws < 2 ^ 63 \<Longrightarrow> intSum ws = sum_list ws"
  using foldl_wrap64_sum [of ws 0] by (simp add: intSum_def)

lemma intSum_replicate_0 [simp]: "intSum (replicate n 0) = 0"
  using intSum_sum_list [of "replicate n 0"] by (simp add: sum_list_replicate)

lemma intSum_replicate_1: "int n < 2 ^ 63 \<Longrightarrow> intSum (replicate n 1) = int n"
  using intSum_sum_list [of "replicate n 1"] by (simp add: sum_list_replicate)

lemma percentage_Inr:
  "tot \<noteq> 0 \<Longrightarrow> percentage tot w = Inr (rounded_of tot w, remainder_of tot w)"
  by (simp add: percentage_def f64_div_def f64_of_int_eq_0_iff rounded_of_def remainder_of_def Let_def)

lemma percentages_Inr:
  "tot \<noteq> 0 \<Longrightarrow> percentages tot ws = Inr (map (rounded_of tot) ws, map (remainder_of tot) ws)"
  by (induction ws) (simp_all add: percentage_Inr)

lemma length_bump [simp]: "length (bump idxs rs) = length rs"
  unfolding bump_def by (induction idxs arbitrary: rs) simp_all

lemma distribute_bump:
  assumes "set order \<subseteq> {..<length results}" and "is_int64 remaining"
  shows "distribute order remaining results = Inr (bump (take (nat remaining) order) results)"
  using assms
proof (induction order arbitrary: remaining results)
  case Nil
  then show ?case by (simp add: bump_def)
next
  case (Cons idx order)
  show ?case
  proof (cases "remaining \<le> 0")
    case True
    then show ?thesis by (simp add: bump_def)
  next
    case False
    then have w: "wrap64 (remaining - 1) = remaining - 1"
      using Cons.prems(2) by (intro wrap64_id) (simp add: is_int64_def)
    have n: "nat remaining = Suc (nat (remaining - 1))" using False by simp
    have "distribute order (remaining - 1) (results[idx := wrap64 (results ! idx + 1)])
        = Inr (bump (take (nat (remaining - 1)) order) (results[idx := wrap64 (results ! idx + 1)]))"
      using Cons.prems False by (intro Cons.IH) (auto simp: is_int64_def)
    then show ?thesis using False Cons.prems(1) w
      by (simp add: n bump_def)
  qed
qed

lemma bump_nth:
  assumes "distinct idxs" and "i < length rs"
  shows "bump idxs rs ! i = (if i \<in> set idxs then wrap64 (rs ! i + 1) else rs ! i)"
  using assms unfolding bump_def
proof (induction idxs arbitrary: rs)
  case Nil
  then show ?case by simp
next
  case (Cons j idxs)
  from Cons.prems have j: "j \<notin> set idxs" and d: "distinct idxs" by simp_all
  have "fold (\<lambda>i rs. rs[i := wrap64 (rs ! i + 1)]) idxs (rs[j := wrap64 (rs ! j + 1)]) ! i
      = (if i \<in> set idxs then wrap64 (rs[j := wrap64 (rs ! j + 1)] ! i + 1)
         else rs[j := wrap64 (rs ! j + 1)] ! i)"
    using Cons.IH [OF d, of "rs[j := wrap64 (rs ! j + 1)]"] Cons.prems(2) by simp
  then show ?case using j Cons.prems(2)
    by (cases "i = j") (auto simp: nth_list_update)
qed

lemma sum_list_bump:
  assumes "distinct idxs" and "set idxs \<subseteq> {..<length rs}"
    and "\<forall>i\<in>set idxs. is_int64 (rs ! i + 1)"
  shows "sum_list (bump idxs rs) = sum_list rs + int (length idxs)"
  using assms unfolding bump_def
proof (induction idxs arbitrary: rs)
  case Nil
  then show ?case by simp
next
  case (Cons j idxs)
  let ?rs = "rs[j := wrap64 (rs ! j + 1)]"
  have j: "j < length rs" "j \<notin> set idxs" using Cons.prems by simp_all
  have w: "wrap64 (rs ! j + 1) = rs ! j + 1" using Cons.prems(3) by (simp add: wrap64_id)
  have u: "sum_list ?rs = sum_list rs + 1"
  proof -
    have "rs = take j rs @ rs ! j # drop (Suc j) rs" using j(1) by (simp add: id_take_nth_drop)
    then have "sum_list rs = sum_list (take j rs) + rs ! j + sum_list (drop (Suc j) rs)"
      by (metis sum_list.Cons sum_list.append add.assoc)
    moreover have "?rs = take j rs @ (rs ! j + 1) # drop (Suc j) rs"
      using j(1) by (simp add: upd_conv_take_nth_drop w)
    then have "sum_list ?rs = sum_list (take j rs) + (rs ! j + 1) + sum_list (drop (Suc j) rs)"
      by (metis sum_list.Cons sum_list.append add.assoc)
    ultimately show ?thesis by simp
  qed
  have "sum_list (fold (\<lambda>i rs. rs[i := wrap64 (rs ! i + 1)]) idxs ?rs) = sum_list ?rs + int (length idxs)"
  proof (rule Cons.IH)
    show "distinct idxs" using Cons.prems(1) by simp
    show "set idxs \<subseteq> {..<length ?rs}" using Cons.prems(2) by simp
    show "\<forall>i\<in>set idxs. is_int64 (?rs ! i + 1)"
    proof
      fix i assume i: "i \<in> set idxs"
      then have "i \<noteq> j" using j(2) by auto
      then have "?rs ! i = rs ! i" by simp
      then show "is_int64 (?rs ! i + 1)" using Cons.prems(3) i by simp
    qed
  qed
  then show ?case using u by simp
qed

lemma standardizeWeights_unfold:
  assumes "Sort_contract srt" and "length weights \<noteq> 1"
  shows "standardizeWeights srt weights =
    (let tot = intSum weights;
         weights' = (if tot = 0 then map (\<lambda>_. 1) weights else weights);
         tot' = (if tot = 0 then int (length weights) else tot);
         results = map (rounded_of tot') weights';
         remainders = map (remainder_of tot') weights';
         remaining = wrap64 (100 - intSum results)
     in Inr \<lparr>weights_after = weights',
             returned = bump (take (nat remaining) (argsort srt remainders)) results\<rparr>)"
proof (cases "weights = []")
  case True
  then show ?thesis using argsort_Nil [OF assms(1)]
    by (simp add: standardizeWeights_def Let_def bump_def)
next
  case False
  define tot where "tot = intSum weights"
  define tot' where "tot' = (if tot = 0 then int (length weights) else tot)"
  have nz: "tot' \<noteq> 0" using False by (simp add: tot'_def)
  define weights' where "weights' = (if tot = 0 then map (\<lambda>_. 1) weights else weights)"
  define remainders where "remainders = map (remainder_of tot') weights'"
  define results where "results = map (rounded_of tot') weights'"
  have "set (argsort srt remainders) \<subseteq> {..<length results}"
    using argsort_set [OF assms(1), of remainders] by (simp add: remainders_def results_def)
  from distribute_bump [OF this is_int64_wrap64]
  show ?thesis
    using assms(2) percentages_Inr [OF nz, of weights']
    unfolding standardizeWeights_def Let_def tot_def [symmetric]  tot'_def [symmetric]
       weights'_def [symmetric]
    by (simp add: remainders_def results_def)
qed

lemma standardizeWeights_eq:
  assumes "Sort_contract srt" and "length weights \<noteq> 1"
  shows "standardizeWeights srt weights =
    Inr \<lparr>weights_after = fallback_weights weights,
         returned = bump
           (take (nat (wrap64 (100 - intSum (map (rounded_of (fallback_total weights)) (fallback_weights weights)))))
              (argsort srt (map (remainder_of (fallback_total weights)) (fallback_weights weights))))
           (map (rounded_of (fallback_total weights)) (fallback_weights weights))\<rparr>"
  using standardizeWeights_unfold [OF assms]
  by (simp add: Let_def fallback_weights_def fallback_total_def)

lemma length_fallback_weights [simp]: "length (fallback_weights ws) = length ws"
  by (simp add: fallback_weights_def)

lemma standardizeWeights_eq':
  assumes "Sort_contract srt" and "length weights \<noteq> 1"
  shows "standardizeWeights srt weights =
    Inr \<lparr>weights_after = fallback_weights weights,
         returned = bump (incremented srt (fallback_total weights) (fallback_weights weights))
           (map (rounded_of (fallback_total weights)) (fallback_weights weights))\<rparr>"
  using standardizeWeights_eq [OF assms] by (simp add: incremented_def remaining_of_def)

lemma incremented_props:
  assumes "Sort_contract srt"
  shows "distinct (incremented srt tot ws)"
    and "set (incremented srt tot ws) \<subseteq> {..<length ws}"
proof -
  show "distinct (incremented srt tot ws)"
    using argsort_distinct [OF assms] by (simp add: incremented_def)
  have "set (incremented srt tot ws) \<subseteq> set (argsort srt (map (remainder_of tot) ws))"
    unfolding incremented_def by (rule set_take_subset)
  then show "set (incremented srt tot ws) \<subseteq> {..<length ws}"
    using argsort_set [OF assms, of "map (remainder_of tot) ws"] by simp
qed

lemma fallback_contract:
  assumes "\<forall>w\<in>set ws. 0 \<le> w" and "sum_list ws < 2 ^ 63"
    and "ws \<noteq> []" and "int (length ws) < 2 ^ 63"
  shows "\<forall>w\<in>set (fallback_weights ws). 0 \<le> w"
    and "sum_list (fallback_weights ws) = fallback_total ws"
    and "1 \<le> fallback_total ws" and "fallback_total ws < 2 ^ 63"
proof -
  have i: "intSum ws = sum_list ws" using assms(1,2) by (rule intSum_sum_list)
  have s: "0 \<le> sum_list ws" using assms(1) by (simp add: sum_list_nonneg)
  have l: "1 \<le> int (length ws)" using assms(3) by (cases ws) simp_all
  have o: "sum_list (map (\<lambda>_. 1::int) ws) = int (length ws)" by (simp add: sum_list_triv)
  show "\<forall>w\<in>set (fallback_weights ws). 0 \<le> w"
    using assms(1) by (auto simp: fallback_weights_def)
  show "sum_list (fallback_weights ws) = fallback_total ws"
    using o by (simp add: fallback_weights_def fallback_total_def i)
  show "1 \<le> fallback_total ws" using s l by (simp add: fallback_total_def i)
  show "fallback_total ws < 2 ^ 63" using assms(2,4) by (simp add: fallback_total_def i)
qed

lemma fallback_all_zero:
  "fallback_weights (replicate n 0) = replicate n 1" "fallback_total (replicate n 0) = int n"
  by (simp_all add: fallback_weights_def fallback_total_def map_replicate_const)

lemma fallback_all_one:
  assumes "0 < n" and "int n < 2 ^ 63"
  shows "fallback_weights (replicate n 1) = replicate n 1" "fallback_total (replicate n 1) = int n"
  using assms by (simp_all add: fallback_weights_def fallback_total_def intSum_replicate_1)

lemma percentages_length:
  "percentages tot ws = Inr (results, remainders) \<Longrightarrow> length results = length ws"
  by (induction ws arbitrary: results remainders) (auto split: sum.splits prod.splits)

lemma distribute_length:
  "distribute order remaining results = Inr res \<Longrightarrow> length res = length results"
  by (induction order remaining results rule: distribute.induct) (auto split: if_splits)

lemma standardizeWeights_length:
  "standardizeWeights srt weights = Inr r \<Longrightarrow> length (returned r) = length weights"
  by (auto simp: standardizeWeights_def Let_def split: if_splits sum.splits prod.splits
      dest!: percentages_length distribute_length)

section \<open>The error of a float percentage\<close>

lemma scaled_of_zero [simp]: "scaled_of tot 0 = 0"
  by (simp add: scaled_of_def f64_mul_def f64_of_int_def)

lemma scaled_of_bounds:
  assumes w: "1 \<le> w" and t: "1 \<le> tot" and wr: "w < 2 ^ 63" and tr: "tot < 2 ^ 63"
  shows "100 * of_int w / of_int tot * (1 - 1 / 2 ^ 50) \<le> scaled_of tot w"
    and "scaled_of tot w \<le> 100 * of_int w / of_int tot * (1 + 1 / 2 ^ 50)"
proof -
  define W :: rat where "W = of_int w"
  define T :: rat where "T = of_int tot"
  define fw where "fw = f64_of_int w"
  define ft where "ft = f64_of_int tot"
  define lo :: rat where "lo = 1 - 1 / 2 ^ 53"
  define hi :: rat where "hi = 1 + 1 / 2 ^ 53"
  have lo: "0 < lo" "1 / 2 \<le> lo" and hi: "0 < hi" "hi \<le> 2" by (simp_all add: lo_def hi_def)
  have W1: "1 \<le> W" and T1: "1 \<le> T" using w t by (simp_all add: W_def T_def)
  have Tr: "T \<le> 2 ^ 63"
  proof -
    have "(of_int tot :: rat) \<le> of_int (2 ^ 63)" using tr by (simp only: of_int_le_iff)
    then show "T \<le> 2 ^ 63" by (simp add: T_def)
  qed
  have fw: "W * lo \<le> fw" "fw \<le> W * hi"
    using f64_of_int_between [OF w] by (simp_all add: fw_def W_def lo_def hi_def)
  have ft: "T * lo \<le> ft" "ft \<le> T * hi"
    using f64_of_int_between [OF t] by (simp_all add: ft_def T_def lo_def hi_def)
  have Tlo: "0 < T * lo" and Thi: "0 < T * hi" using T1 lo hi by simp_all
  have Wlo: "0 < W * lo" using W1 lo by simp
  have ft_pos: "0 < ft" using ft(1) Tlo by linarith
  have fw_pos: "0 < fw" using fw(1) Wlo by linarith
  define x where "x = fw / ft"
  have x_lo: "W * lo / (T * hi) \<le> x"
    unfolding x_def using fw(1) ft(2) Wlo Thi ft_pos by (intro frac_le) simp_all
  have x_hi: "x \<le> W * hi / (T * lo)"
    unfolding x_def using fw(2) ft(1) Tlo fw_pos by (intro frac_le) simp_all
  have x_ge: "1 / 2 ^ 70 \<le> x"
  proof -
    have "1 / 2 / (2 ^ 63 * 2) \<le> W * lo / (T * hi)"
    proof (intro frac_le)
      show "1 / 2 \<le> W * lo" using W1 lo(2) mult_mono [of 1 W "1 / 2" lo] by simp
      show "T * hi \<le> 2 ^ 63 * 2" using Tr hi T1 by (intro mult_mono) simp_all
    qed (use Thi Wlo in simp_all)
    then show ?thesis using x_lo by simp
  qed
  then have x_n: "pow2 (- 1022) \<le> x" using pow2_m1022_le by linarith
  have x_pos: "0 < x" using x_ge by (smt (verit) divide_pos_pos zero_less_numeral zero_less_one zero_less_power less_le_trans)
  define perc where "perc = rnd64 x"
  have perc: "x * lo \<le> perc" "perc \<le> x * hi"
    using rnd64_between [OF x_n] by (simp_all add: perc_def lo_def hi_def)
  have perc_ge: "1 / 2 ^ 71 \<le> perc"
  proof -
    have "1 / 2 ^ 70 * (1 / 2) \<le> x * lo" using x_ge lo(2) by (intro mult_mono) simp_all
    then show ?thesis using perc(1) by simp
  qed
  define y where "y = perc * 100"
  have "pow2 (- 1022) \<le> y" using perc_ge pow2_m1022_le by (simp add: y_def)
  from rnd64_between [OF this]
  have q: "y * lo \<le> rnd64 y" "rnd64 y \<le> y * hi" by (simp_all add: lo_def hi_def)
  have s: "scaled_of tot w = rnd64 y"
    by (simp add: scaled_of_def f64_mul_def y_def perc_def x_def fw_def ft_def)
  have R: "0 < W / T" using W1 T1 by simp
  define cl :: rat where "cl = 1 - 1 / 2 ^ 50"
  define ch :: rat where "ch = 1 + 1 / 2 ^ 50"
  have c_lo: "cl \<le> lo / hi * lo * lo" by (simp add: lo_def hi_def cl_def)
  have c_hi: "hi / lo * hi * hi \<le> ch" by (simp add: lo_def hi_def ch_def)
  have R100: "0 \<le> 100 * (W / T)" using R by simp
  have "100 * (W / T) * cl \<le> 100 * (W / T) * (lo / hi * lo * lo)"
    by (rule mult_left_mono [OF c_lo R100])
  also have "\<dots> = W * lo / (T * hi) * lo * 100 * lo" by simp
  also have "\<dots> \<le> x * lo * 100 * lo"
    by (intro mult_right_mono x_lo) (use lo in simp_all)
  also have "\<dots> \<le> perc * 100 * lo"
    by (intro mult_right_mono perc) (use lo in simp_all)
  also have "\<dots> \<le> rnd64 y" using q(1) by (simp add: y_def)
  finally have "100 * (W / T) * cl \<le> scaled_of tot w" by (simp add: s)
  then show "100 * of_int w / of_int tot * (1 - 1 / 2 ^ 50) \<le> scaled_of tot w"
    by (simp add: W_def T_def cl_def)
  have "rnd64 y \<le> perc * 100 * hi" using q(2) by (simp add: y_def)
  also have "\<dots> \<le> x * hi * 100 * hi"
    by (intro mult_right_mono perc) (use hi in simp_all)
  also have "\<dots> \<le> W * hi / (T * lo) * hi * 100 * hi"
    by (intro mult_right_mono x_hi) (use hi in simp_all)
  also have "\<dots> = 100 * (W / T) * (hi / lo * hi * hi)" by simp
  also have "\<dots> \<le> 100 * (W / T) * ch"
    by (rule mult_left_mono [OF c_hi R100])
  finally have "scaled_of tot w \<le> 100 * (W / T) * ch" by (simp add: s)
  then show "scaled_of tot w \<le> 100 * of_int w / of_int tot * (1 + 1 / 2 ^ 50)"
    by (simp add: W_def T_def ch_def)
qed

lemma rounded_of_scaled: "rounded_of tot w = f64_to_int (scaled_of tot w)"
  by (simp add: rounded_of_def scaled_of_def)

lemma remainder_of_scaled:
  "remainder_of tot w = f64_sub (scaled_of tot w) (f64_of_int (rounded_of tot w))"
  by (simp add: remainder_of_def scaled_of_def)

lemma scaled_of_range:
  assumes "0 \<le> w" and "w \<le> tot" and "1 \<le> tot" and "tot < 2 ^ 63"
  shows "exact_percentage tot w * (1 - 1 / 2 ^ 50) \<le> scaled_of tot w"
    and "scaled_of tot w \<le> exact_percentage tot w * (1 + 1 / 2 ^ 50)"
proof -
  have "exact_percentage tot w * (1 - 1 / 2 ^ 50) \<le> scaled_of tot w \<and>
        scaled_of tot w \<le> exact_percentage tot w * (1 + 1 / 2 ^ 50)"
  proof (cases "w = 0")
    case True
    then show ?thesis by (simp add: exact_percentage_def)
  next
    case False
    then have "1 \<le> w" "w < 2 ^ 63" using assms by simp_all
    from scaled_of_bounds [OF this(1) assms(3) this(2) assms(4)]
    show ?thesis by (simp add: exact_percentage_def)
  qed
  then show "exact_percentage tot w * (1 - 1 / 2 ^ 50) \<le> scaled_of tot w"
    and "scaled_of tot w \<le> exact_percentage tot w * (1 + 1 / 2 ^ 50)" by simp_all
qed

lemma exact_percentage_range:
  assumes "0 \<le> w" and "w \<le> tot" and "1 \<le> tot"
  shows "0 \<le> exact_percentage tot w" and "exact_percentage tot w \<le> 100"
proof -
  have "(0::rat) \<le> of_int w" "(of_int w :: rat) \<le> of_int tot" "(0::rat) < of_int tot"
    using assms by simp_all
  then show "0 \<le> exact_percentage tot w" and "exact_percentage tot w \<le> 100"
    by (simp_all add: exact_percentage_def pos_divide_le_eq)
qed

lemma scaled_of_0_101:
  assumes "0 \<le> w" and "w \<le> tot" and "1 \<le> tot" and "tot < 2 ^ 63"
  shows "0 \<le> scaled_of tot w" and "scaled_of tot w < 101"
proof -
  note p = exact_percentage_range [OF assms(1-3)]
  have "0 \<le> exact_percentage tot w * (1 - 1 / 2 ^ 50)" using p(1) by simp
  then show "0 \<le> scaled_of tot w" using scaled_of_range(1) [OF assms] by linarith
  have "exact_percentage tot w * (1 + 1 / 2 ^ 50) \<le> 100 * (1 + 1 / 2 ^ 50)"
    using p(2) by (intro mult_right_mono) simp_all
  also have "\<dots> < 101" by simp
  finally show "scaled_of tot w < 101" using scaled_of_range(2) [OF assms] by linarith
qed

lemma rounded_of_floor:
  assumes "0 \<le> w" and "w \<le> tot" and "1 \<le> tot" and "tot < 2 ^ 63"
  shows "rounded_of tot w = \<lfloor>scaled_of tot w\<rfloor>"
    and "0 \<le> rounded_of tot w" and "rounded_of tot w \<le> 100"
proof -
  note s = scaled_of_0_101 [OF assms]
  have f: "0 \<le> \<lfloor>scaled_of tot w\<rfloor>" "\<lfloor>scaled_of tot w\<rfloor> \<le> 100"
    using s by (simp_all add: floor_le_iff)
  then have "is_int64 \<lfloor>scaled_of tot w\<rfloor>" by (simp add: is_int64_def)
  then show "rounded_of tot w = \<lfloor>scaled_of tot w\<rfloor>"
    using s(1) by (simp add: rounded_of_scaled f64_to_int_def)
  then show "0 \<le> rounded_of tot w" and "rounded_of tot w \<le> 100" using f by simp_all
qed

lemma scaled_of_close:
  assumes "0 \<le> w" and "w \<le> tot" and "1 \<le> tot" and "tot < 2 ^ 63"
  shows "\<bar>scaled_of tot w - exact_percentage tot w\<bar> \<le> 1 / 2 ^ 43"
proof -
  define p where "p = exact_percentage tot w"
  note r = scaled_of_range [OF assms, folded p_def]
  note p = exact_percentage_range [OF assms(1-3), folded p_def]
  have "p * (1 / 2 ^ 50) \<le> 100 * (1 / 2 ^ 50)" using p(2) by (intro mult_right_mono) simp_all
  also have "\<dots> \<le> 1 / 2 ^ 43" by simp
  finally have e: "p * (1 / 2 ^ 50) \<le> 1 / 2 ^ 43" .
  have "p * (1 - 1 / 2 ^ 50) = p - p * (1 / 2 ^ 50)" "p * (1 + 1 / 2 ^ 50) = p + p * (1 / 2 ^ 50)"
    by (simp_all add: algebra_simps)
  with r have "p - p * (1 / 2 ^ 50) \<le> scaled_of tot w" "scaled_of tot w \<le> p + p * (1 / 2 ^ 50)"
    by simp_all
  with e show ?thesis unfolding p_def [symmetric] by linarith
qed

lemma remainder_of_close:
  assumes "0 \<le> w" and "w \<le> tot" and "1 \<le> tot" and "tot < 2 ^ 63"
  shows "\<bar>remainder_of tot w - (scaled_of tot w - of_int (rounded_of tot w))\<bar> \<le> 1 / 2 ^ 54"
proof -
  note r = rounded_of_floor [OF assms]
  have "f64_of_int (rounded_of tot w) = of_int (rounded_of tot w)"
    using r(2,3) by (intro f64_of_int_exact) simp_all
  then have m: "remainder_of tot w = rnd64 (scaled_of tot w - of_int (rounded_of tot w))"
    by (simp add: remainder_of_scaled f64_sub_def)
  have "0 \<le> scaled_of tot w - of_int (rounded_of tot w)"
    and "scaled_of tot w - of_int (rounded_of tot w) < 1"
    unfolding r(1) by linarith+
  from rnd64_abs_err_unit [OF this] show ?thesis by (simp only: m)
qed

section \<open>The sum of the result\<close>

lemma sum_list_exact_percentage:
  assumes "tot \<noteq> 0" and "sum_list ws = tot"
  shows "sum_list (map (exact_percentage tot) ws) = 100"
proof -
  have "exact_percentage tot = (\<lambda>w. 100 / of_int tot * of_int w)"
    by (rule ext) (simp add: exact_percentage_def)
  then have "sum_list (map (exact_percentage tot) ws)
      = sum_list (map (\<lambda>w. 100 / of_int tot * of_int w) ws)"
    by simp
  also have "\<dots> = 100 / of_int tot * sum_list (map of_int ws)"
    by (rule sum_list_const_mult)
  also have "\<dots> = 100 / of_int tot * of_int tot"
    by (simp only: sum_list_of_int assms(2))
  finally show ?thesis using assms(1) by simp
qed

lemma sum_list_rounded_bounds:
  assumes nn: "\<forall>w\<in>set ws. 0 \<le> w" and T: "sum_list ws = tot"
    and t1: "1 \<le> tot" and tr: "tot < 2 ^ 63"
  shows "sum_list (map (rounded_of tot) ws) \<le> 100"
    and "100 - int (length ws) \<le> sum_list (map (rounded_of tot) ws)"
proof -
  have le: "w \<le> tot" if "w \<in> set ws" for w
    using member_le_sum_list [OF that] nn T by auto
  have P: "sum_list (map (exact_percentage tot) ws) = 100"
    using sum_list_exact_percentage [OF _ T] t1 by simp
  let ?R = "sum_list (map (\<lambda>w. of_int (rounded_of tot w) :: rat) ws)"
  let ?S = "sum_list (map (scaled_of tot) ws)"
  have R: "?R = of_int (sum_list (map (rounded_of tot) ws))"
    using sum_list_of_int [of "map (rounded_of tot) ws", where ?'a = rat] by (simp add: comp_def)
  have S_hi: "?S \<le> 100 * (1 + 1 / 2 ^ 50)"
  proof -
    have "?S \<le> sum_list (map (\<lambda>w. exact_percentage tot w * (1 + 1 / 2 ^ 50)) ws)"
      by (rule sum_list_mono) (use nn le t1 tr scaled_of_range(2) in blast)
    also have "\<dots> = sum_list (map (exact_percentage tot) ws) * (1 + 1 / 2 ^ 50)"
      by (rule sum_list_mult_const)
    finally show ?thesis by (simp only: P)
  qed
  have S_lo: "100 * (1 - 1 / 2 ^ 50) \<le> ?S"
  proof -
    have "sum_list (map (\<lambda>w. exact_percentage tot w * (1 - 1 / 2 ^ 50)) ws) \<le> ?S"
      by (rule sum_list_mono) (use nn le t1 tr scaled_of_range(1) in blast)
    moreover have "sum_list (map (\<lambda>w. exact_percentage tot w * (1 - 1 / 2 ^ 50)) ws)
        = sum_list (map (exact_percentage tot) ws) * (1 - 1 / 2 ^ 50)"
      by (rule sum_list_mult_const)
    ultimately show ?thesis by (simp only: P)
  qed
  have "?R \<le> ?S"
  proof (rule sum_list_mono)
    fix w assume "w \<in> set ws"
    then have "rounded_of tot w = \<lfloor>scaled_of tot w\<rfloor>"
      using rounded_of_floor(1) nn le t1 tr by blast
    then show "of_int (rounded_of tot w) \<le> scaled_of tot w" by simp
  qed
  with S_hi have "?R < 101" by simp
  then have "sum_list (map (rounded_of tot) ws) < 101"
    unfolding R by (metis of_int_less_iff of_int_numeral)
  then show "sum_list (map (rounded_of tot) ws) \<le> 100" by simp
  have "sum_list (map (\<lambda>w. scaled_of tot w - 1) ws) \<le> ?R"
  proof (rule sum_list_mono)
    fix w assume "w \<in> set ws"
    then have "rounded_of tot w = \<lfloor>scaled_of tot w\<rfloor>"
      using rounded_of_floor(1) nn le t1 tr by blast
    then show "scaled_of tot w - 1 \<le> of_int (rounded_of tot w)" by linarith
  qed
  moreover have "sum_list (map (\<lambda>w. scaled_of tot w - 1) ws) = ?S - of_nat (length ws)"
    by (simp add: sum_list_subtractf sum_list_triv)
  ultimately have "?S - of_nat (length ws) \<le> ?R" by simp
  with S_lo have "(99::rat) - of_nat (length ws) < ?R" by simp
  then have "(of_int (99 - int (length ws)) :: rat) < of_int (sum_list (map (rounded_of tot) ws))"
    unfolding R by simp
  then have "99 - int (length ws) < sum_list (map (rounded_of tot) ws)"
    by (simp only: of_int_less_iff)
  then show "100 - int (length ws) \<le> sum_list (map (rounded_of tot) ws)" by simp
qed

lemma remaining_of_eq:
  assumes nn: "\<forall>w\<in>set ws. 0 \<le> w" and T: "sum_list ws = tot"
    and t1: "1 \<le> tot" and tr: "tot < 2 ^ 63"
  shows "remaining_of tot ws = 100 - sum_list (map (rounded_of tot) ws)"
    and "0 \<le> remaining_of tot ws" and "remaining_of tot ws \<le> int (length ws)"
proof -
  have le: "w \<le> tot" if "w \<in> set ws" for w
    using member_le_sum_list [OF that] nn T by auto
  note b = sum_list_rounded_bounds [OF assms]
  have n: "\<forall>r\<in>set (map (rounded_of tot) ws). 0 \<le> r"
    using rounded_of_floor(2) nn le t1 tr by auto
  then have "intSum (map (rounded_of tot) ws) = sum_list (map (rounded_of tot) ws)"
    using b(1) by (intro intSum_sum_list) simp_all
  moreover have "0 \<le> sum_list (map (rounded_of tot) ws)"
    using n by (intro sum_list_nonneg) auto
  then have "is_int64 (100 - sum_list (map (rounded_of tot) ws))"
    using b by (simp add: is_int64_def)
  ultimately show "remaining_of tot ws = 100 - sum_list (map (rounded_of tot) ws)"
    by (simp add: remaining_of_def wrap64_id)
  then show "0 \<le> remaining_of tot ws" and "remaining_of tot ws \<le> int (length ws)"
    using b by simp_all
qed

lemma length_incremented:
  assumes "Sort_contract srt" and "0 \<le> remaining_of tot ws"
    and "remaining_of tot ws \<le> int (length ws)"
  shows "int (length (incremented srt tot ws)) = remaining_of tot ws"
  using assms argsort_length [OF assms(1), of "map (remainder_of tot) ws"]
  by (simp add: incremented_def)

lemma standardized_sum:
  assumes srt: "Sort_contract srt"
    and nn: "\<forall>w\<in>set ws. 0 \<le> w" and T: "sum_list ws = tot"
    and t1: "1 \<le> tot" and tr: "tot < 2 ^ 63"
  shows "sum_list (bump (incremented srt tot ws) (map (rounded_of tot) ws)) = 100"
proof -
  have le: "w \<le> tot" if "w \<in> set ws" for w
    using member_le_sum_list [OF that] nn T by auto
  note r = remaining_of_eq [OF nn T t1 tr]
  note i = incremented_props [OF srt, of tot ws]
  have "\<forall>i\<in>set (incremented srt tot ws). is_int64 (map (rounded_of tot) ws ! i + 1)"
  proof
    fix i assume "i \<in> set (incremented srt tot ws)"
    then have l: "i < length ws" using i(2) by auto
    then have "ws ! i \<in> set ws" by simp
    then have "0 \<le> rounded_of tot (ws ! i)" "rounded_of tot (ws ! i) \<le> 100"
      using rounded_of_floor(2,3) nn le t1 tr by blast+
    then show "is_int64 (map (rounded_of tot) ws ! i + 1)" using l by (simp add: is_int64_def)
  qed
  then have "sum_list (bump (incremented srt tot ws) (map (rounded_of tot) ws))
      = sum_list (map (rounded_of tot) ws) + int (length (incremented srt tot ws))"
    using i by (intro sum_list_bump) simp_all
  also have "\<dots> = 100"
    using length_incremented [OF srt r(2,3)] r(1) by simp
  finally show ?thesis .
qed

lemma bump_incremented_nth:
  assumes srt: "Sort_contract srt"
    and nn: "\<forall>w\<in>set ws. 0 \<le> w" and T: "sum_list ws = tot"
    and t1: "1 \<le> tot" and tr: "tot < 2 ^ 63" and i: "i < length ws"
  shows "bump (incremented srt tot ws) (map (rounded_of tot) ws) ! i =
    (if i \<in> set (incremented srt tot ws) then rounded_of tot (ws ! i) + 1
     else rounded_of tot (ws ! i))"
proof -
  have "ws ! i \<in> set ws" using i by simp
  moreover from this have "ws ! i \<le> tot" using member_le_sum_list [of "ws ! i" ws] nn T by auto
  ultimately have "0 \<le> rounded_of tot (ws ! i)" "rounded_of tot (ws ! i) \<le> 100"
    using rounded_of_floor(2,3) nn t1 tr by blast+
  then have "is_int64 (rounded_of tot (ws ! i) + 1)" by (simp add: is_int64_def)
  then have "wrap64 (rounded_of tot (ws ! i) + 1) = rounded_of tot (ws ! i) + 1" by (rule wrap64_id)
  then show ?thesis
    using bump_nth [OF incremented_props(1) [OF srt], of i "map (rounded_of tot) ws" tot ws] i
    by simp
qed

section \<open>Exact percentages and their remainders\<close>

lemma spec_floor_div: "spec_floor tot w = (100 * w) div tot"
proof -
  have "exact_percentage tot w = of_int (100 * w) / of_int tot"
    by (simp add: exact_percentage_def)
  then show ?thesis by (simp only: spec_floor_def floor_divide_of_int_eq)
qed

lemma spec_remainder_mod:
  assumes "tot \<noteq> 0"
  shows "spec_remainder tot w = of_int ((100 * w) mod tot) / of_int tot"
proof -
  have "(of_int (100 * w) :: rat) = of_int ((100 * w) div tot * tot + (100 * w) mod tot)"
    by simp
  also have "\<dots> = of_int ((100 * w) div tot) * of_int tot + of_int ((100 * w) mod tot)"
    by (simp only: of_int_add of_int_mult)
  finally have "(of_int (100 * w) :: rat) / of_int tot
      = of_int ((100 * w) div tot) + of_int ((100 * w) mod tot) / of_int tot"
    using assms by (simp add: add_divide_distrib)
  then show ?thesis
    by (simp add: spec_remainder_def spec_floor_div exact_percentage_def)
qed

lemma spec_remainder_range:
  assumes "1 \<le> tot"
  shows "0 \<le> spec_remainder tot w"
    and "spec_remainder tot w \<noteq> 0 \<Longrightarrow> 1 / of_int tot \<le> spec_remainder tot w"
    and "spec_remainder tot w \<le> 1 - 1 / of_int tot"
proof -
  define a where "a = (100 * w) mod tot"
  have a: "0 \<le> a" "a < tot" using assms by (simp_all add: a_def)
  have r: "spec_remainder tot w = of_int a / of_int tot"
    using spec_remainder_mod [of tot w] assms by (simp add: a_def)
  have t: "(0::rat) < of_int tot" using assms by simp
  show "0 \<le> spec_remainder tot w" using a(1) t by (simp add: r)
  show "1 / of_int tot \<le> spec_remainder tot w" if "spec_remainder tot w \<noteq> 0"
  proof -
    from that have "a \<noteq> 0" by (auto simp: r)
    then have "1 \<le> a" using a(1) by simp
    then have "(1::rat) \<le> of_int a" by simp
    then show ?thesis using t by (simp add: r divide_right_mono)
  qed
  have "a \<le> tot - 1" using a(2) by simp
  then have "(of_int a :: rat) \<le> of_int (tot - 1)" by (simp only: of_int_le_iff)
  then have "(of_int a :: rat) / of_int tot \<le> of_int (tot - 1) / of_int tot"
    using t by (simp add: divide_right_mono)
  also have "\<dots> = 1 - 1 / of_int tot" using t by (simp add: diff_divide_distrib)
  finally show "spec_remainder tot w \<le> 1 - 1 / of_int tot" by (simp add: r)
qed

lemma spec_remainder_gap:
  assumes "1 \<le> tot" and "spec_remainder tot w < spec_remainder tot w'"
  shows "spec_remainder tot w + 1 / of_int tot \<le> spec_remainder tot w'"
proof -
  have t: "(0::rat) < of_int tot" and nz: "tot \<noteq> 0" using assms(1) by simp_all
  have "(of_int ((100 * w) mod tot) :: rat) < of_int ((100 * w') mod tot)"
    using assms(2) t by (simp add: spec_remainder_mod [OF nz] divide_less_cancel)
  then have "(100 * w) mod tot + 1 \<le> (100 * w') mod tot" by simp
  then have "(of_int ((100 * w) mod tot + 1) :: rat) \<le> of_int ((100 * w') mod tot)"
    by (simp only: of_int_le_iff)
  then have "(of_int ((100 * w) mod tot + 1) :: rat) / of_int tot
      \<le> of_int ((100 * w') mod tot) / of_int tot"
    using t by (simp add: divide_right_mono)
  then show ?thesis by (simp add: spec_remainder_mod [OF nz] add_divide_distrib)
qed

lemma sum_list_spec_floor_le:
  assumes "tot \<noteq> 0" and "sum_list ws = tot"
  shows "sum_list (map (spec_floor tot) ws) \<le> 100"
proof -
  have "sum_list (map (\<lambda>w. of_int (spec_floor tot w) :: rat) ws)
      \<le> sum_list (map (exact_percentage tot) ws)"
    by (rule sum_list_mono) (simp add: spec_floor_def)
  also have "\<dots> = 100" using assms by (rule sum_list_exact_percentage)
  finally have "(of_int (sum_list (map (spec_floor tot) ws)) :: rat) \<le> 100"
    using sum_list_of_int [of "map (spec_floor tot) ws", where ?'a = rat] by (simp add: comp_def)
  then show ?thesis by (metis of_int_le_iff of_int_numeral)
qed

lemma inv_total_ge:
  assumes "1 \<le> tot" and "tot \<le> 2 ^ 41"
  shows "1 / 2 ^ 41 \<le> 1 / (of_int tot :: rat)"
proof -
  have "(of_int tot :: rat) \<le> of_int (2 ^ 41)" using assms(2) by (simp only: of_int_le_iff)
  moreover have "(0::rat) < of_int tot" using assms(1) by simp
  ultimately show ?thesis by (simp add: frac_le)
qed

lemma rounding_gap: "(1 / 2 ^ 43 + 1 / 2 ^ 54) + (1 / 2 ^ 43 + 1 / 2 ^ 54) < (1 / 2 ^ 41 :: rat)"
  by simp

section \<open>Float remainders against exact remainders\<close>

text \<open>
  How the truncated float percentage relates to the floor of the exact one, for totals up
  to \<open>2^41\<close>: it is the same, or one less when the exact percentage is an integer.
\<close>

lemma rounded_of_cases:
  assumes w: "0 \<le> w" "w \<le> tot" and t: "1 \<le> tot" "tot \<le> 2 ^ 41"
  shows "rounded_of tot w = spec_floor tot w \<or>
         rounded_of tot w = spec_floor tot w - 1 \<and> spec_remainder tot w = 0"
proof -
  have tr: "tot < 2 ^ 63" using t(2) by simp
  define p where "p = exact_percentage tot w"
  define q where "q = scaled_of tot w"
  define fl where "fl = spec_floor tot w"
  define fr where "fr = spec_remainder tot w"
  have pf: "p = of_int fl + fr" by (simp add: fr_def fl_def p_def spec_remainder_def)
  have c: "\<bar>q - p\<bar> \<le> 1 / 2 ^ 43"
    using scaled_of_close [OF w t(1) tr] by (simp add: q_def p_def)
  have r: "rounded_of tot w = \<lfloor>q\<rfloor>" using rounded_of_floor(1) [OF w t(1) tr] by (simp add: q_def)
  note f = spec_remainder_range [OF t(1), of w, folded fr_def]
  note i = inv_total_ge [OF t]
  have lo: "of_int (fl - 1) \<le> q"
  proof -
    have "of_int fl - 1 / 2 ^ 43 \<le> q" using c f(1) pf by linarith
    then show ?thesis by simp
  qed
  show ?thesis
  proof (cases "fr = 0")
    case True
    have "q < of_int fl + 1"
    proof -
      have "q \<le> of_int fl + 1 / 2 ^ 43" using c pf True by linarith
      then show ?thesis by simp
    qed
    then have "q < of_int (fl + 1)" by simp
    then have "\<lfloor>q\<rfloor> < fl + 1" by (simp only: floor_less_iff)
    moreover have "fl - 1 \<le> \<lfloor>q\<rfloor>" using lo by (simp only: le_floor_iff)
    ultimately show ?thesis using True by (auto simp: r fl_def fr_def)
  next
    case False
    then have g: "1 / 2 ^ 41 \<le> fr" "fr \<le> 1 - 1 / 2 ^ 41" using f(2,3) i by linarith+
    have "of_int fl \<le> q"
    proof -
      have "of_int fl + 1 / 2 ^ 41 - 1 / 2 ^ 43 \<le> q" using c pf g(1) by linarith
      then show ?thesis by simp
    qed
    then have "fl \<le> \<lfloor>q\<rfloor>" by (simp only: le_floor_iff)
    moreover have "q < of_int (fl + 1)"
    proof -
      have "q \<le> of_int fl + 1 - 1 / 2 ^ 41 + 1 / 2 ^ 43" using c pf g(2) by linarith
      then show ?thesis by simp
    qed
    then have "\<lfloor>q\<rfloor> < fl + 1" by (simp only: floor_less_iff)
    ultimately show ?thesis by (simp add: r fl_def)
  qed
qed

text \<open>The float remainder of a percentage that fell short of its integer is almost 1.\<close>

lemma remainder_of_short:
  assumes w: "0 \<le> w" "w \<le> tot" and t: "1 \<le> tot" "tot < 2 ^ 63"
    and "rounded_of tot w = spec_floor tot w - 1"
  shows "1 - (1 / 2 ^ 43 + 1 / 2 ^ 54) \<le> remainder_of tot w"
proof -
  define p where "p = exact_percentage tot w"
  have "of_int (spec_floor tot w) \<le> p" by (simp add: spec_floor_def p_def)
  moreover have "\<bar>scaled_of tot w - p\<bar> \<le> 1 / 2 ^ 43"
    using scaled_of_close [OF w t] by (simp add: p_def)
  moreover note remainder_of_close [OF w t]
  moreover have "(of_int (rounded_of tot w) :: rat) = of_int (spec_floor tot w) - 1"
    by (simp add: assms(5))
  ultimately show ?thesis by linarith
qed

text \<open>Otherwise the float remainder is the exact remainder, up to the rounding.\<close>

lemma remainder_of_exact:
  assumes w: "0 \<le> w" "w \<le> tot" and t: "1 \<le> tot" "tot < 2 ^ 63"
    and "rounded_of tot w = spec_floor tot w"
  shows "\<bar>remainder_of tot w - spec_remainder tot w\<bar> \<le> 1 / 2 ^ 43 + 1 / 2 ^ 54"
proof -
  define p where "p = exact_percentage tot w"
  have "spec_remainder tot w = p - of_int (rounded_of tot w)"
    by (simp add: spec_remainder_def p_def assms(5))
  moreover have "\<bar>scaled_of tot w - p\<bar> \<le> 1 / 2 ^ 43"
    using scaled_of_close [OF w t] by (simp add: p_def)
  moreover note remainder_of_close [OF w t]
  ultimately show ?thesis by linarith
qed

lemma fell_short_iff:
  assumes w: "0 \<le> w" "w \<le> tot" and t: "1 \<le> tot" "tot \<le> 2 ^ 41"
  shows "fell_short tot w \<longleftrightarrow> rounded_of tot w = spec_floor tot w - 1"
proof
  have tr: "tot < 2 ^ 63" using t(2) by simp
  show "fell_short tot w" if "rounded_of tot w = spec_floor tot w - 1"
    using remainder_of_short [OF w t(1) tr that] by (simp add: fell_short_def)
  show "rounded_of tot w = spec_floor tot w - 1" if f: "fell_short tot w"
  proof (rule ccontr)
    assume "rounded_of tot w \<noteq> spec_floor tot w - 1"
    then have e: "rounded_of tot w = spec_floor tot w"
      using rounded_of_cases [OF w t] by auto
    note remainder_of_exact [OF w t(1) tr e]
    moreover note spec_remainder_range(3) [OF t(1), of w]
    moreover note inv_total_ge [OF t]
    moreover have "1 - (1 / 2 ^ 43 + 1 / 2 ^ 54) \<le> remainder_of tot w"
      using f by (simp only: fell_short_def)
    moreover note rounding_gap
    ultimately show False by linarith
  qed
qed

lemma short_indices_incremented:
  assumes srt: "Sort_contract srt"
    and nn: "\<forall>w\<in>set ws. 0 \<le> w" and T: "sum_list ws = tot"
    and t1: "1 \<le> tot" and t41: "tot \<le> 2 ^ 41"
    and i: "i < length ws" and f: "fell_short tot (ws ! i)"
  shows "i \<in> set (incremented srt tot ws)"
proof -
  have tr: "tot < 2 ^ 63" using t41 by simp
  have le: "w \<le> tot" if "w \<in> set ws" for w
    using member_le_sum_list [OF that] nn T by auto
  define ms where "ms = map (remainder_of tot) ws"
  define order where "order = argsort srt ms"
  define P where "P = (\<lambda>i. fell_short tot (ws ! i))"
  have so: "set order = {..<length ws}"
    using argsort_set [OF srt, of ms] by (simp add: order_def ms_def)
  have part: "order = filter P order @ filter (\<lambda>x. \<not> P x) order"
  proof (rule sorted_wrt_partition [where R = "\<lambda>i j. \<not> ms ! i < ms ! j"])
    show "sorted_wrt (\<lambda>i j. \<not> ms ! i < ms ! j) order"
      unfolding order_def by (rule argsort_sorted [OF srt])
  next
    fix x y assume "x \<in> set order" "y \<in> set order" "\<not> P x" "P y"
    then have "x < length ws" "y < length ws" using so by auto
    then have "ms ! x = remainder_of tot (ws ! x)" "ms ! y = remainder_of tot (ws ! y)"
      by (simp_all add: ms_def)
    then have "ms ! x < ms ! y" using \<open>\<not> P x\<close> \<open>P y\<close> by (simp add: P_def fell_short_def)
    then show "\<not> \<not> ms ! x < ms ! y" by simp
  qed
  define b where "b = (\<lambda>w. spec_floor tot w - rounded_of tot w)"
  have b: "(b w = 0 \<or> b w = 1) \<and> (b w = 1 \<longleftrightarrow> fell_short tot w)" if "w \<in> set ws" for w
  proof -
    have w: "0 \<le> w" "w \<le> tot" using that nn le by auto
    show ?thesis
      using rounded_of_cases [OF w t1 t41] fell_short_iff [OF w t1 t41] by (auto simp: b_def)
  qed
  have "length (filter P order) = length (filter P [0..<length ws])"
    using argsort_mset [OF srt, of ms] by (intro length_filter_perm) (simp add: order_def ms_def)
  also have "\<dots> = length (filter (fell_short tot) ws)"
    unfolding P_def by (rule length_filter_nth)
  also have "filter (fell_short tot) ws = filter (\<lambda>w. b w = 1) ws"
    using b by (intro filter_cong) simp_all
  finally have "length (filter P order) = length (filter (\<lambda>w. b w = 1) ws)" .
  moreover have "sum_list (map b ws) = int (length (filter (\<lambda>w. b w = 1) ws))"
    by (rule sum_list_indicator) (use b in blast)
  ultimately have d: "int (length (filter P order)) = sum_list (map b ws)" by simp
  have "sum_list (map b ws) = sum_list (map (spec_floor tot) ws) - sum_list (map (rounded_of tot) ws)"
    unfolding b_def by (rule sum_list_subtractf)
  moreover have "sum_list (map (spec_floor tot) ws) \<le> 100"
    using sum_list_spec_floor_le [OF _ T] t1 by simp
  moreover note remaining_of_eq(1) [OF nn T t1 tr]
  ultimately have "int (length (filter P order)) \<le> remaining_of tot ws" using d by simp
  then have "length (filter P order) \<le> nat (remaining_of tot ws)" by simp
  from filter_prefix_take [OF part this]
  have "set (filter P order) \<subseteq> set (incremented srt tot ws)"
    by (simp add: incremented_def order_def ms_def)
  moreover have "i \<in> set (filter P order)" using i f so by (simp add: P_def)
  ultimately show ?thesis by blast
qed

section \<open>The result as an outcome of the largest remainder method\<close>

lemma bump_is_outcome:
  assumes srt: "Sort_contract srt"
    and nn: "\<forall>w\<in>set ws. 0 \<le> w" and T: "sum_list ws = tot"
    and t1: "1 \<le> tot" and t41: "tot \<le> 2 ^ 41"
  shows "largest_remainder_outcome tot ws
           (bump (incremented srt tot ws) (map (rounded_of tot) ws))"
proof -
  define out where "out = bump (incremented srt tot ws) (map (rounded_of tot) ws)"
  define inc where "inc = incremented srt tot ws"
  define fl where "fl = (\<lambda>i. spec_floor tot (ws ! i))"
  define fr where "fr = (\<lambda>i. spec_remainder tot (ws ! i))"
  define ms where "ms = map (remainder_of tot) ws"
  have tr: "tot < 2 ^ 63" using t41 by simp
  have le: "w \<le> tot" if "w \<in> set ws" for w
    using member_le_sum_list [OF that] nn T by auto
  have w: "0 \<le> ws ! i" "ws ! i \<le> tot" if "i < length ws" for i
    using that nn le by simp_all
  have nth: "out ! i = (if i \<in> set inc then rounded_of tot (ws ! i) + 1 else rounded_of tot (ws ! i))"
    if "i < length ws" for i
    using bump_incremented_nth [OF srt nn T t1 tr that] by (simp add: out_def inc_def)
  have short: "i \<in> set inc" if "i < length ws" "fell_short tot (ws ! i)" for i
    using short_indices_incremented [OF srt nn T t1 t41 that] by (simp add: inc_def)
  have cases: "\<not> fell_short tot (ws ! i) \<and> rounded_of tot (ws ! i) = fl i \<and>
        out ! i = (if i \<in> set inc then fl i + 1 else fl i) \<or>
      fell_short tot (ws ! i) \<and> fr i = 0 \<and> i \<in> set inc \<and> out ! i = fl i"
    if i: "i < length ws" for i
  proof (cases "fell_short tot (ws ! i)")
    case True
    then have "rounded_of tot (ws ! i) = fl i - 1"
      using fell_short_iff [OF w [OF i] t1 t41] by (simp add: fl_def)
    moreover from this have "fr i = 0"
      using rounded_of_cases [OF w [OF i] t1 t41] by (auto simp: fl_def fr_def)
    ultimately show ?thesis using True short [OF i True] nth [OF i] by simp
  next
    case False
    then have "rounded_of tot (ws ! i) = fl i"
      using fell_short_iff [OF w [OF i] t1 t41] rounded_of_cases [OF w [OF i] t1 t41]
      by (auto simp: fl_def)
    then show ?thesis using False nth [OF i] by simp
  qed
  have O1: "out ! i = fl i \<or> out ! i = fl i + 1" if "i < length ws" for i
    using cases [OF that] by auto
  have O2: "fr j \<le> fr i"
    if i: "i < length ws" and j: "j < length ws" and oi: "out ! i = fl i + 1" and oj: "out ! j = fl j"
    for i j
  proof -
    from cases [OF i] oi have ci: "\<not> fell_short tot (ws ! i)" "rounded_of tot (ws ! i) = fl i"
      "i \<in> set inc" by (auto split: if_splits)
    from cases [OF j] oj consider "fr j = 0"
      | "\<not> fell_short tot (ws ! j)" "rounded_of tot (ws ! j) = fl j" "j \<notin> set inc"
      by (auto split: if_splits)
    then show ?thesis
    proof cases
      case 1
      then show ?thesis using spec_remainder_range(1) [OF t1, of "ws ! i"] by (simp add: fr_def)
    next
      case 2
      have "j \<in> set (argsort srt ms)" using argsort_set [OF srt, of ms] j by (simp add: ms_def)
      then have "\<not> ms ! i < ms ! j"
        using take_drop_sorted_wrt [OF argsort_sorted [OF srt, of ms], of i _ j] ci(3) 2(3)
        by (simp add: inc_def incremented_def ms_def)
      then have m: "remainder_of tot (ws ! j) \<le> remainder_of tot (ws ! i)"
        using i j by (simp add: ms_def)
      show ?thesis
      proof (rule ccontr)
        assume "\<not> fr j \<le> fr i"
        then have "fr i + 1 / of_int tot \<le> fr j"
          using spec_remainder_gap [OF t1, of "ws ! i" "ws ! j"] by (simp add: fr_def)
        moreover note inv_total_ge [OF t1 t41]
        moreover note remainder_of_exact [OF w [OF i] t1 tr, folded fr_def] ci(2) [unfolded fl_def]
        moreover note remainder_of_exact [OF w [OF j] t1 tr, folded fr_def] 2(2) [unfolded fl_def]
        moreover note rounding_gap m
        ultimately show False by (simp only: fr_def) linarith
      qed
    qed
  qed
  have len: "length out = length ws" by (simp add: out_def)
  have cnt: "int (length (filter (\<lambda>i. out ! i = fl i + 1) [0..<length ws]))
      = 100 - sum_list (map (spec_floor tot) ws)"
  proof -
    define b where "b = (\<lambda>i. out ! i - fl i)"
    have o: "map ((!) out) [0..<length ws] = out" using len map_nth [of out] by simp
    have f: "map fl [0..<length ws] = map (spec_floor tot) ws"
      by (rule nth_equalityI) (simp_all add: fl_def)
    have s: "sum_list out = 100"
      using standardized_sum [OF srt nn T t1 tr] by (simp add: out_def)
    have "filter (\<lambda>i. out ! i = fl i + 1) [0..<length ws] = filter (\<lambda>i. b i = 1) [0..<length ws]"
      by (intro filter_cong) (auto simp: b_def)
    then have "int (length (filter (\<lambda>i. out ! i = fl i + 1) [0..<length ws]))
        = int (length (filter (\<lambda>i. b i = 1) [0..<length ws]))" by (simp only:)
    also have "\<dots> = sum_list (map b [0..<length ws])"
    proof (rule sum_list_indicator [symmetric], rule ballI)
      fix i assume "i \<in> set [0..<length ws]"
      then have "i < length ws" by simp
      from O1 [OF this] show "b i = 0 \<or> b i = 1" unfolding b_def by linarith
    qed
    also have "\<dots> = sum_list (map ((!) out) [0..<length ws]) - sum_list (map fl [0..<length ws])"
      unfolding b_def by (rule sum_list_subtractf)
    also have "\<dots> = 100 - sum_list (map (spec_floor tot) ws)"
      by (simp only: o f s)
    finally show ?thesis .
  qed
  show ?thesis
    unfolding largest_remainder_outcome_def out_def [symmetric]
    using len O1 O2 cnt by (simp add: list_all_iff fl_def fr_def)
qed

lemma outcome_nth:
  assumes "largest_remainder_outcome tot ws out" and "i < length ws"
  shows "out ! i = spec_floor tot (ws ! i) \<or> out ! i = spec_floor tot (ws ! i) + 1"
  using assms by (simp add: largest_remainder_outcome_def list_all_iff)

lemma outcome_none_incremented:
  assumes "largest_remainder_outcome tot ws out"
    and "sum_list (map (spec_floor tot) ws) = 100" and "i < length ws"
  shows "out ! i = spec_floor tot (ws ! i)"
proof -
  have "length (filter (\<lambda>i. out ! i = spec_floor tot (ws ! i) + 1) [0..<length ws]) = 0"
    using assms(1,2) by (simp add: largest_remainder_outcome_def)
  then have "\<forall>i\<in>set [0..<length ws]. out ! i \<noteq> spec_floor tot (ws ! i) + 1"
    by (simp only: length_0_conv filter_empty_conv)
  then show ?thesis using outcome_nth [OF assms(1,3)] assms(3) by simp
qed

lemma even_split_outcome:
  assumes srt: "Sort_contract srt" and n: "0 < n" "int n \<le> 2 ^ 41"
  shows "largest_remainder_outcome (int n) (replicate n 1)
           (bump (incremented srt (int n) (replicate n 1)) (map (rounded_of (int n)) (replicate n 1)))"
  by (rule bump_is_outcome [OF srt]) (use n in \<open>simp_all add: sum_list_replicate\<close>)

section \<open>The callers of the standardizer\<close>

lemma weight_of_eq_0_iff: "weight_of w = 0 \<longleftrightarrow> Weight w = Some 0"
  by (simp add: weight_of_def split: option.splits)

lemma tcp_select_eq:
  "tcp_select refs =
     (map weight_of (filter (\<lambda>w. Weight w \<noteq> Some 0) refs), filter (\<lambda>w. Weight w \<noteq> Some 0) refs)"
  by (induction refs) (simp_all add: weight_of_eq_0_iff)

lemma http_select_eq:
  "http_select refs totalZero =
     (map (\<lambda>w. weight_of (BackendRef w)) (filter (\<lambda>w. totalZero \<or> Weight (BackendRef w) \<noteq> Some 0) refs),
      filter (\<lambda>w. totalZero \<or> Weight (BackendRef w) \<noteq> Some 0) refs)"
  by (induction refs) (auto simp: weight_of_eq_0_iff)

lemma tcp_routes_destinations:
  "tcp_routes e ns domain weights i action = Inr res \<Longrightarrow>
     map (\<lambda>w. buildDestination e w ns domain) action = map (\<lambda>rd. Inr (rd_Destination rd)) res"
proof (induction action arbitrary: i res)
  case Nil
  then show ?case by simp
next
  case (Cons fwd action)
  then show ?case by (auto split: sum.splits if_splits)
qed

lemma backend_filters_Destination:
  "backend_filters e filters rd = Inr rd' \<Longrightarrow> hrd_Destination rd' = hrd_Destination rd"
proof (induction filters arbitrary: rd)
  case Nil
  then show ?case by simp
next
  case (Cons flt filters)
  then show ?case by (cases "Type flt") auto
qed

lemma http_routes_destinations:
  "http_routes e ns domain weights i action = Inr res \<Longrightarrow>
     map (\<lambda>w. buildDestination e (BackendRef w) ns domain) action
       = map (\<lambda>rd. Inr (hrd_Destination rd)) res"
proof (induction action arbitrary: i res)
  case Nil
  then show ?case by simp
next
  case (Cons fwd action)
  then show ?case
    by (auto split: sum.splits if_splits dest: backend_filters_Destination)
qed

lemma zero_weights_iff:
  "zero_weights refs \<longleftrightarrow> (\<forall>w\<in>set refs. Weight (BackendRef w) = Some 0)"
  by (induction refs) (auto split: option.splits)

lemma rule_filters_Fault:
  "rule_filters e ns domain filters vs = Inr vs' \<Longrightarrow> vs_Fault vs' = vs_Fault vs"
proof (induction filters arbitrary: vs)
  case Nil
  then show ?case by simp
next
  case (Cons flt filters)
  then show ?case by (cases "Type flt") (auto split: sum.splits)
qed

lemma rule_filters_Redirect:
  "rule_filters e ns domain filters vs = Inr vs' \<Longrightarrow>
     \<forall>f\<in>set filters. Type f \<noteq> HTTPRouteFilterRequestRedirect \<Longrightarrow>
     vs_Redirect vs' = vs_Redirect vs"
proof (induction filters arbitrary: vs)
  case Nil
  then show ?case by simp
next
  case (Cons flt filters)
  then show ?case by (cases "Type flt") (auto split: sum.splits)
qed

lemma convert_rule_Redirect:
  assumes "convert_rule e ns domain r = Inr vs"
    and "\<forall>f\<in>set (RuleFilters r). Type f \<noteq> HTTPRouteFilterRequestRedirect"
  shows "vs_Redirect vs = None"
  using assms
  by (auto simp: convert_rule_def Let_def split: sum.splits if_splits dest: rule_filters_Redirect)

lemma convert_rule_Fault:
  assumes "convert_rule e ns domain r = Inr vs"
  shows "vs_Fault vs =
    (if zero_weights (case BackendRefs r of None \<Rightarrow> [] | Some refs \<Rightarrow> refs) \<and> vs_Redirect vs = None
     then Some abort_503 else None)"
  using assms
  by (auto simp: convert_rule_def Let_def split: sum.splits if_splits dest: rule_filters_Fault)

lemma convert_rules_nth:
  "convert_rules e ns domain rules = Inr httproutes \<Longrightarrow>
     length httproutes = length rules \<and>
     (\<forall>k<length rules. convert_rule e ns domain (rules ! k) = Inr (httproutes ! k))"
proof (induction rules arbitrary: httproutes)
  case Nil
  then show ?case by simp
next
  case (Cons r rules)
  then show ?case by (auto split: sum.splits simp: nth_Cons split: nat.splits)
qed

lemma tcp_routes_weights:
  "tcp_routes e ns domain weights i action = Inr res \<Longrightarrow>
     map rd_Weight res = map wrap32 (take (length action) (drop i weights))"
proof (induction action arbitrary: i res)
  case Nil
  then show ?case by simp
next
  case (Cons fwd action)
  then show ?case
    by (auto split: sum.splits if_splits simp: Cons_nth_drop_Suc [symmetric])
qed

lemma backend_filters_Weight:
  "backend_filters e filters rd = Inr rd' \<Longrightarrow> hrd_Weight rd' = hrd_Weight rd"
proof (induction filters arbitrary: rd)
  case Nil
  then show ?case by simp
next
  case (Cons flt filters)
  then show ?case by (cases "Type flt") auto
qed

lemma http_routes_weights:
  "http_routes e ns domain weights i action = Inr res \<Longrightarrow>
     map hrd_Weight res = map wrap32 (take (length action) (drop i weights))"
proof (induction action arbitrary: i res)
  case Nil
  then show ?case by simp
next
  case (Cons fwd action)
  then show ?case
    by (auto split: sum.splits if_splits simp: Cons_nth_drop_Suc [symmetric]
        dest: backend_filters_Weight)
qed

lemma buildTCPDestination_weights:
  assumes "buildTCPDestination e (Some refs) ns domain = Inr (Some res)"
  shows "\<exists>r. standardizeWeights (sort_Sort e) (map weight_of (filter (\<lambda>w. Weight w \<noteq> Some 0) refs)) = Inr r \<and>
    map rd_Weight res = map wrap32 (returned r)"
proof -
  let ?kept = "filter (\<lambda>w. Weight w \<noteq> Some 0) refs"
  from assms obtain r where
    s: "standardizeWeights (sort_Sort e) (map weight_of ?kept) = Inr r"
    and t: "tcp_routes e ns domain (returned r) 0 ?kept = Inr res"
    by (auto simp: buildTCPDestination_def tcp_select_eq split: sum.splits)
  have "length (returned r) = length ?kept" using standardizeWeights_length [OF s] by simp
  then show ?thesis using s tcp_routes_weights [OF t] by auto
qed

lemma buildHTTPDestination_weights:
  assumes "buildHTTPDestination e (Some hrefs) ns domain totalZero = Inr (Some hres)"
  shows "\<exists>r. standardizeWeights (sort_Sort e)
        (map (\<lambda>w. weight_of (BackendRef w))
           (filter (\<lambda>w. totalZero \<or> Weight (BackendRef w) \<noteq> Some 0) hrefs)) = Inr r \<and>
    map hrd_Weight hres = map wrap32 (returned r)"
proof -
  let ?kept = "filter (\<lambda>w. totalZero \<or> Weight (BackendRef w) \<noteq> Some 0) hrefs"
  from assms obtain r where
    s: "standardizeWeights (sort_Sort e) (map (\<lambda>w. weight_of (BackendRef w)) ?kept) = Inr r"
    and t: "http_routes e ns domain (returned r) 0 ?kept = Inr hres"
    by (auto simp: buildHTTPDestination_def http_select_eq split: sum.splits)
  have "length (returned r) = length ?kept" using standardizeWeights_length [OF s] by simp
  then show ?thesis using s http_routes_weights [OF t] by auto
qed

section \<open>The claims\<close>

text \<open>
  C1, as the code has it. For at least two non-negative weights whose sum does not
  overflow \<open>int\<close>, the returned slice sums to exactly 100.
\<close>

theorem standardizeWeights_sum_100:
  assumes "Sort_contract srt"
    and "2 \<le> length weights" and "int (length weights) < 2 ^ 63"
    and "\<forall>w\<in>set weights. 0 \<le> w" and "sum_list weights < 2 ^ 63"
  shows "\<exists>r. standardizeWeights srt weights = Inr r \<and> sum_list (returned r) = 100"
proof -
  have ne: "weights \<noteq> []" and n1: "length weights \<noteq> 1" using assms(2) by auto
  note c = fallback_contract [OF assms(4,5) ne assms(3)]
  from standardized_sum [OF assms(1) c]
  show ?thesis using standardizeWeights_eq' [OF assms(1) n1] by simp
qed

theorem standardizeWeights_sum_100_witness:
  "Sort_contract insertion_sort_desc \<and> 2 \<le> length [1, 1, 1 :: int] \<and>
   int (length [1, 1, 1 :: int]) < 2 ^ 63 \<and> list_all (\<lambda>w. 0 \<le> w) [1, 1, 1 :: int] \<and>
   sum_list [1, 1, 1 :: int] < 2 ^ 63 \<and>
   (\<exists>r. standardizeWeights insertion_sort_desc [1, 1, 1] = Inr r \<and> sum_list (returned r) = 100)"
  using standardizeWeights_sum_100 [of insertion_sort_desc "[1, 1, 1]"]
    Sort_contract_insertion_sort_desc by simp

text \<open>
  C1 as stated fails where the sum of the weights overflows: two weights of
  \<open>2^62\<close> add up to \<open>- 2^63\<close>, both percentages are \<open>- 50\<close>, and the loop can add
  only one unit to each.
\<close>

theorem standardizeWeights_sum_overflow:
  "standardizeWeights insertion_sort_desc [4611686018427387904, 4611686018427387904] =
     Inr \<lparr>weights_after = [4611686018427387904, 4611686018427387904], returned = [- 49, - 49]\<rparr>"
  by code_simp

text \<open>
  C2, as the code has it. For at least two non-negative weights with a total (after the
  all-zero fallback) of at most \<open>2^41\<close>: the truncated float percentage of each weight is
  the floor of its exact percentage, or one less where the exact percentage is an
  integer; the returned slice is these values with one unit added at each of the first
  \<open>remaining\<close> indices of the descending remainder order; and it is an outcome of the
  largest remainder method on the exact percentages, so every entry is the floor of
  its exact percentage or that plus one.
\<close>

theorem standardizeWeights_largest_remainder:
  assumes "Sort_contract srt" and "2 \<le> length weights"
    and "\<forall>w\<in>set weights. 0 \<le> w"
    and "sum_list weights \<le> 2 ^ 41" and "int (length weights) \<le> 2 ^ 41"
  shows "\<exists>r. standardizeWeights srt weights = Inr r \<and>
    list_all (\<lambda>w. rounded_of (fallback_total weights) w = spec_floor (fallback_total weights) w \<or>
                 rounded_of (fallback_total weights) w = spec_floor (fallback_total weights) w - 1 \<and>
                 spec_remainder (fallback_total weights) w = 0)
      (fallback_weights weights) \<and>
    returned r = bump
      (take (nat (100 - sum_list (map (rounded_of (fallback_total weights)) (fallback_weights weights))))
         (argsort srt (map (remainder_of (fallback_total weights)) (fallback_weights weights))))
      (map (rounded_of (fallback_total weights)) (fallback_weights weights)) \<and>
    largest_remainder_outcome (fallback_total weights) (fallback_weights weights) (returned r)"
proof -
  define tot where "tot = fallback_total weights"
  define ws where "ws = fallback_weights weights"
  have ne: "weights \<noteq> []" and n1: "length weights \<noteq> 1" using assms(2) by auto
  have s63: "sum_list weights < 2 ^ 63" "int (length weights) < 2 ^ 63"
    using assms(4,5) by simp_all
  note c = fallback_contract [OF assms(3) s63(1) ne s63(2), folded tot_def ws_def]
  have t41: "tot \<le> 2 ^ 41"
    using assms(3,4,5) intSum_sum_list [OF assms(3) s63(1)]
    by (simp add: tot_def fallback_total_def)
  have le: "w \<le> tot" if "w \<in> set ws" for w
    using member_le_sum_list [OF that] c(1,2) by auto
  have a: "list_all (\<lambda>w. rounded_of tot w = spec_floor tot w \<or>
      rounded_of tot w = spec_floor tot w - 1 \<and> spec_remainder tot w = 0) ws"
    unfolding list_all_iff using rounded_of_cases [OF _ le c(3) t41] c(1) by blast
  have b: "incremented srt tot ws
      = take (nat (100 - sum_list (map (rounded_of tot) ws))) (argsort srt (map (remainder_of tot) ws))"
    using remaining_of_eq(1) [OF c] by (simp add: incremented_def)
  note o = bump_is_outcome [OF assms(1) c(1,2,3) t41]
  show ?thesis
    using standardizeWeights_eq' [OF assms(1) n1] a b o
    by (simp add: tot_def ws_def)
qed

theorem standardizeWeights_largest_remainder_witness:
  "Sort_contract insertion_sort_desc \<and> 2 \<le> length [29, 71 :: int] \<and>
   list_all (\<lambda>w. 0 \<le> w) [29, 71 :: int] \<and> sum_list [29, 71 :: int] \<le> 2 ^ 41 \<and>
   int (length [29, 71 :: int]) \<le> 2 ^ 41 \<and>
   standardizeWeights insertion_sort_desc [29, 71] = Inr \<lparr>weights_after = [29, 71], returned = [29, 71]\<rparr> \<and>
   largest_remainder_outcome (fallback_total [29, 71]) (fallback_weights [29, 71]) [29, 71]"
proof -
  have e: "standardizeWeights insertion_sort_desc [29, 71] = Inr \<lparr>weights_after = [29, 71], returned = [29, 71]\<rparr>"
    by code_simp
  from standardizeWeights_largest_remainder [of insertion_sort_desc "[29, 71]"]
  show ?thesis using e Sort_contract_insertion_sort_desc by simp
qed

text \<open>
  C2 as stated fails in two ways. On the truncated values: for the weights \<open>[29, 71]\<close>
  the float product \<open>0.29 * 100\<close> is \<open>28.999999999999996\<close>, so the loop records 28
  with a remainder of \<open>1 - 2^-48\<close> where the exact percentage 29 has floor 29 and
  remainder 0, and one unit remains to be handed out where the exact method has none.
  On the result, for a large total: of three weights that sum to \<open>175460334289399\<close>
  the first two have exact remainders one step \<open>1/total\<close> apart, the float remainders
  come out in the opposite order, and the unit goes to the first weight, whose exact
  remainder is the smaller one; the exact method returns \<open>[31, 33, 36]\<close>.
\<close>

theorem exact_largest_remainder_fails:
  "percentages (intSum [29, 71]) [29, 71]
     = Inr ([28, 71], [281474976710655 / 281474976710656, 0]) \<and>
   map (spec_floor 100) [29, 71] = [29, 71] \<and>
   map (spec_remainder 100) [29, 71] = [0, 0] \<and>
   wrap64 (100 - intSum [28, 71]) = 1 \<and>
   intSum [55214669291597, 56969272634491, 63276392363311] = 175460334289399 \<and>
   standardizeWeights insertion_sort_desc [55214669291597, 56969272634491, 63276392363311]
     = Inr \<lparr>weights_after = [55214669291597, 56969272634491, 63276392363311],
            returned = [32, 32, 36]\<rparr> \<and>
   map (spec_floor 175460334289399) [55214669291597, 56969272634491, 63276392363311]
     = [31, 32, 36] \<and>
   spec_remainder 175460334289399 55214669291597 < spec_remainder 175460334289399 56969272634491 \<and>
   \<not> largest_remainder_outcome 175460334289399
       [55214669291597, 56969272634491, 63276392363311] [32, 32, 36]"
  by code_simp

text \<open>
  C3. For an input of length 1 the returned slice is \<open>[0]\<close>, whatever the entry is
  and whatever the sort does.
\<close>

theorem standardizeWeights_single:
  "standardizeWeights srt [w] = Inr \<lparr>weights_after = [w], returned = [0]\<rparr>"
  by (simp add: standardizeWeights_def)

text \<open>
  C4. An all-zero slice of length \<open>n \<ge> 2\<close> is standardized exactly as the slice of \<open>n\<close>
  ones: the results agree and sum to 100, and (for \<open>n\<close> up to \<open>2^41\<close>) every entry is
  \<open>100 div n\<close> or one more. \<open>[0, 0]\<close> gives \<open>[50, 50]\<close>, and \<open>[0, 0, 0]\<close> gives a
  permutation of \<open>34, 33, 33\<close>, whatever order the sort leaves equal remainders in.
\<close>

theorem standardizeWeights_all_zero:
  assumes "Sort_contract srt" and "2 \<le> n" and "int n < 2 ^ 63"
  shows "(\<exists>out. standardizeWeights srt (replicate n 0) = Inr \<lparr>weights_after = replicate n 1, returned = out\<rparr>
           \<and> standardizeWeights srt (replicate n 1) = Inr \<lparr>weights_after = replicate n 1, returned = out\<rparr>
           \<and> length out = n \<and> sum_list out = 100
           \<and> (int n \<le> 2 ^ 41 \<longrightarrow> list_all (\<lambda>x. x = 100 div int n \<or> x = 100 div int n + 1) out))
       \<and> standardizeWeights srt [0, 0] = Inr \<lparr>weights_after = [1, 1], returned = [50, 50]\<rparr>
       \<and> (\<exists>out. standardizeWeights srt [0, 0, 0] = Inr \<lparr>weights_after = [1, 1, 1], returned = out\<rparr>
           \<and> mset out = {#34, 33, 33#} \<and> sum_list out = 100)"
proof -
  have general: "\<exists>out. standardizeWeights srt (replicate n 0) = Inr \<lparr>weights_after = replicate n 1, returned = out\<rparr>
           \<and> standardizeWeights srt (replicate n 1) = Inr \<lparr>weights_after = replicate n 1, returned = out\<rparr>
           \<and> length out = n \<and> sum_list out = 100
           \<and> (int n \<le> 2 ^ 41 \<longrightarrow> list_all (\<lambda>x. x = 100 div int n \<or> x = 100 div int n + 1) out)"
    if n: "2 \<le> n" "int n < 2 ^ 63" for n
  proof -
    define out where
      "out = bump (incremented srt (int n) (replicate n 1)) (map (rounded_of (int n)) (replicate n 1))"
    have n0: "0 < n" and n1: "length (replicate n (0::int)) \<noteq> 1" "length (replicate n (1::int)) \<noteq> 1"
      using n(1) by simp_all
    have z: "standardizeWeights srt (replicate n 0) = Inr \<lparr>weights_after = replicate n 1, returned = out\<rparr>"
      using standardizeWeights_eq' [OF assms(1) n1(1)] by (simp add: fallback_all_zero out_def)
    have o: "standardizeWeights srt (replicate n 1) = Inr \<lparr>weights_after = replicate n 1, returned = out\<rparr>"
      using standardizeWeights_eq' [OF assms(1) n1(2)] by (simp add: fallback_all_one [OF n0 n(2)] out_def)
    have l: "length out = n" by (simp add: out_def)
    have s: "sum_list out = 100"
      unfolding out_def
      by (rule standardized_sum [OF assms(1)]) (use n in \<open>simp_all add: sum_list_replicate\<close>)
    have e: "list_all (\<lambda>x. x = 100 div int n \<or> x = 100 div int n + 1) out" if "int n \<le> 2 ^ 41"
    proof -
      have "out ! i = 100 div int n \<or> out ! i = 100 div int n + 1" if "i < n" for i
        using outcome_nth [OF even_split_outcome [OF assms(1) n0 \<open>int n \<le> 2 ^ 41\<close>], of i] that
        by (simp add: out_def spec_floor_div)
      then show ?thesis using l by (simp add: list_all_length)
    qed
    show ?thesis using z o l s e by blast
  qed
  from general [of 2] obtain out2 where
    "standardizeWeights srt (replicate 2 0) = Inr \<lparr>weights_after = replicate 2 1, returned = out2\<rparr>"
    "length out2 = 2" "sum_list out2 = 100" "list_all (\<lambda>x. x = 50 \<or> x = 51) out2" by auto
  then have two: "standardizeWeights srt [0, 0] = Inr \<lparr>weights_after = [1, 1], returned = [50, 50]\<rparr>"
    by (auto simp: numeral_2_eq_2 length_Suc_conv)
  from general [of 3] obtain out3 where
    "standardizeWeights srt (replicate 3 0) = Inr \<lparr>weights_after = replicate 3 1, returned = out3\<rparr>"
    "length out3 = 3" "sum_list out3 = 100" "list_all (\<lambda>x. x = 33 \<or> x = 34) out3" by auto
  then have three: "\<exists>out. standardizeWeights srt [0, 0, 0] = Inr \<lparr>weights_after = [1, 1, 1], returned = out\<rparr>
           \<and> mset out = {#34, 33, 33#} \<and> sum_list out = 100"
    by (auto simp: numeral_3_eq_3 length_Suc_conv)
  show ?thesis using general [OF assms(2,3)] two three by blast
qed

theorem standardizeWeights_all_zero_witness:
  "Sort_contract insertion_sort_desc \<and> (2::nat) \<le> 4 \<and> int 4 < 2 ^ 63 \<and> int 4 \<le> 2 ^ 41 \<and>
   standardizeWeights insertion_sort_desc (replicate 4 0)
     = Inr \<lparr>weights_after = replicate 4 1, returned = [25, 25, 25, 25]\<rparr> \<and>
   standardizeWeights insertion_sort_desc (replicate 4 1)
     = Inr \<lparr>weights_after = replicate 4 1, returned = [25, 25, 25, 25]\<rparr> \<and>
   standardizeWeights insertion_sort_desc [0, 0] = Inr \<lparr>weights_after = [1, 1], returned = [50, 50]\<rparr>"
proof -
  have e: "standardizeWeights insertion_sort_desc (replicate 4 0)
     = Inr \<lparr>weights_after = replicate 4 1, returned = [25, 25, 25, 25]\<rparr>" by code_simp
  from standardizeWeights_all_zero [OF Sort_contract_insertion_sort_desc, of 4]
  show ?thesis using e Sort_contract_insertion_sort_desc by auto
qed

text \<open>
  C5. A slice of at least two non-negative weights that sum to 100 is returned as it
  is, and the caller's slice is not touched; \<open>[20, 80]\<close> is such a slice.
\<close>

theorem standardizeWeights_idempotent:
  assumes "Sort_contract srt" and "2 \<le> length weights"
    and "\<forall>w\<in>set weights. 0 \<le> w" and "sum_list weights = 100"
  shows "standardizeWeights srt weights = Inr \<lparr>weights_after = weights, returned = weights\<rparr>"
proof -
  have n1: "length weights \<noteq> 1" using assms(2) by simp
  have "intSum weights = 100" using intSum_sum_list [OF assms(3)] assms(4) by simp
  then have f: "fallback_weights weights = weights" "fallback_total weights = 100"
    by (simp_all add: fallback_weights_def fallback_total_def)
  define out where "out = bump (incremented srt 100 weights) (map (rounded_of 100) weights)"
  have o: "largest_remainder_outcome 100 weights out"
    unfolding out_def by (rule bump_is_outcome [OF assms(1,3,4)]) simp_all
  have fl: "map (spec_floor 100) weights = weights"
    by (simp add: spec_floor_div map_idI)
  have "out = weights"
  proof (rule nth_equalityI)
    show "length out = length weights" by (simp add: out_def)
    fix i assume "i < length out"
    then have i: "i < length weights" by (simp add: out_def)
    from outcome_none_incremented [OF o _ i] show "out ! i = weights ! i"
      by (simp add: fl assms(4)) (simp add: spec_floor_div)
  qed
  then show ?thesis using standardizeWeights_eq' [OF assms(1) n1] by (simp add: f out_def)
qed

theorem standardizeWeights_idempotent_witness:
  "Sort_contract insertion_sort_desc \<and> 2 \<le> length [20, 80 :: int] \<and>
   list_all (\<lambda>w. 0 \<le> w) [20, 80 :: int] \<and> sum_list [20, 80 :: int] = 100 \<and>
   standardizeWeights insertion_sort_desc [20, 80] = Inr \<lparr>weights_after = [20, 80], returned = [20, 80]\<rparr>"
  using standardizeWeights_idempotent [of insertion_sort_desc "[20, 80]"]
    Sort_contract_insertion_sort_desc by simp

text \<open>
  C6. The returned slice has the length of the input, and its entry at index \<open>i\<close> comes
  from the weight at index \<open>i\<close>: it is the rounded percentage of that weight, or that
  value plus the one unit the distribution loop may add.
\<close>

theorem standardizeWeights_index_for_index:
  assumes "Sort_contract srt" and "standardizeWeights srt weights = Inr r"
  shows "length (returned r) = length weights \<and>
    (length weights \<noteq> 1 \<longrightarrow>
      (\<forall>i<length weights.
         returned r ! i = rounded_of (fallback_total weights) (fallback_weights weights ! i) \<or>
         returned r ! i = wrap64 (rounded_of (fallback_total weights) (fallback_weights weights ! i) + 1)))"
proof (cases "length weights = 1")
  case True
  then show ?thesis using assms(2) by (auto simp: standardizeWeights_def)
next
  case False
  let ?rs = "map (rounded_of (fallback_total weights)) (fallback_weights weights)"
  let ?ms = "map (remainder_of (fallback_total weights)) (fallback_weights weights)"
  let ?idxs = "take (nat (wrap64 (100 - intSum ?rs))) (argsort srt ?ms)"
  have r: "returned r = bump ?idxs ?rs"
    using standardizeWeights_eq [OF assms(1) False] assms(2) by auto
  have d: "distinct ?idxs" using argsort_distinct [OF assms(1)] by simp
  have "returned r ! i = ?rs ! i \<or> returned r ! i = wrap64 (?rs ! i + 1)" if "i < length weights" for i
    using bump_nth [OF d, of i ?rs] that by (simp add: r)
  then show ?thesis by (simp add: r)
qed

theorem standardizeWeights_index_for_index_witness:
  "Sort_contract insertion_sort_desc \<and>
   standardizeWeights insertion_sort_desc [1, 2] = Inr \<lparr>weights_after = [1, 2], returned = [33, 67]\<rparr> \<and>
   length [33, 67 :: int] = length [1, 2 :: int] \<and>
   rounded_of (fallback_total [1, 2]) (fallback_weights [1, 2] ! 0) = 33 \<and>
   rounded_of (fallback_total [1, 2]) (fallback_weights [1, 2] ! 1) = 66"
proof -
  have e: "standardizeWeights insertion_sort_desc [1, 2] = Inr \<lparr>weights_after = [1, 2], returned = [33, 67]\<rparr>"
    by code_simp
  have r0: "rounded_of (fallback_total [1, 2]) (fallback_weights [1, 2] ! 0) = 33" by code_simp
  have r1: "rounded_of (fallback_total [1, 2]) (fallback_weights [1, 2] ! 1) = 66" by code_simp
  from standardizeWeights_index_for_index [OF Sort_contract_insertion_sort_desc e]
  show ?thesis using e r0 r1 Sort_contract_insertion_sort_desc by simp
qed

text \<open>
  C7, as the code has it. The caller's slice is left as it was unless the total is zero
  and the length is not 1; then every element has been overwritten with 1.
\<close>

theorem standardizeWeights_input_after:
  assumes "Sort_contract srt" and "standardizeWeights srt weights = Inr r"
  shows "weights_after r =
    (if length weights \<noteq> 1 \<and> intSum weights = 0 then map (\<lambda>_. 1) weights else weights)"
proof (cases "length weights = 1")
  case True
  then show ?thesis using assms(2) by (auto simp: standardizeWeights_def)
next
  case False
  then show ?thesis
    using standardizeWeights_eq [OF assms(1) False] assms(2)
    by (auto simp: fallback_weights_def)
qed

theorem standardizeWeights_input_after_witness:
  "Sort_contract insertion_sort_desc \<and>
   standardizeWeights insertion_sort_desc [3, 1] = Inr \<lparr>weights_after = [3, 1], returned = [75, 25]\<rparr> \<and>
   intSum [3, 1] \<noteq> 0"
proof -
  have e: "standardizeWeights insertion_sort_desc [3, 1] = Inr \<lparr>weights_after = [3, 1], returned = [75, 25]\<rparr>"
    by code_simp
  have s: "intSum [3, 1] \<noteq> 0" by code_simp
  from standardizeWeights_input_after [OF Sort_contract_insertion_sort_desc e]
  show ?thesis using e s Sort_contract_insertion_sort_desc by simp
qed

text \<open>
  C7 as stated fails: after the call on \<open>[0, 0]\<close> the caller's slice holds
  \<open>[1, 1]\<close>.
\<close>

theorem standardizeWeights_overwrites_input:
  "standardizeWeights insertion_sort_desc [0, 0] = Inr \<lparr>weights_after = [1, 1], returned = [50, 50]\<rparr>"
  by code_simp

text \<open>
  C8. The call never faults: for every slice (in particular every slice of at least one
  non-negative weight) it returns a result. No index is out of range, and no division
  has a zero divisor, since a zero total is replaced by the length before the loop.
\<close>

theorem standardizeWeights_total:
  assumes "Sort_contract srt"
  shows "\<exists>r. standardizeWeights srt weights = Inr r"
proof (cases "length weights = 1")
  case True
  then show ?thesis by (simp add: standardizeWeights_def)
next
  case False
  then show ?thesis using standardizeWeights_eq [OF assms] by simp
qed

theorem standardizeWeights_total_witness:
  "Sort_contract insertion_sort_desc \<and>
   (\<exists>r. standardizeWeights insertion_sort_desc [3, 0, 5] = Inr r)"
  using standardizeWeights_total [of insertion_sort_desc "[3, 0, 5]"]
    Sort_contract_insertion_sort_desc by simp

text \<open>
  C9. The references kept are those whose weight is not present and 0, in their order;
  in \<open>buildHTTPDestination\<close> with \<open>totalZero\<close> set all references are kept. The
  exclusion comes before the standardization: \<open>standardizeWeights\<close> is called on the
  weights of the kept references only, and a returned destination list has exactly the
  destinations of the kept references, with the weights the standardizer returned for
  them.
\<close>

theorem zero_weight_backends_excluded:
  "tcp_select refs =
     (map weight_of (filter (\<lambda>w. Weight w \<noteq> Some 0) refs), filter (\<lambda>w. Weight w \<noteq> Some 0) refs) \<and>
   (buildTCPDestination e (Some refs) ns domain = Inr (Some res) \<longrightarrow>
      (\<exists>r. standardizeWeights (sort_Sort e)
              (map weight_of (filter (\<lambda>w. Weight w \<noteq> Some 0) refs)) = Inr r \<and>
           map rd_Weight res = map wrap32 (returned r)) \<and>
      map (\<lambda>w. buildDestination e w ns domain) (filter (\<lambda>w. Weight w \<noteq> Some 0) refs)
        = map (\<lambda>rd. Inr (rd_Destination rd)) res) \<and>
   http_select hrefs False =
     (map (\<lambda>w. weight_of (BackendRef w)) (filter (\<lambda>w. Weight (BackendRef w) \<noteq> Some 0) hrefs),
      filter (\<lambda>w. Weight (BackendRef w) \<noteq> Some 0) hrefs) \<and>
   http_select hrefs True = (map (\<lambda>w. weight_of (BackendRef w)) hrefs, hrefs) \<and>
   (buildHTTPDestination e (Some hrefs) ns domain totalZero = Inr (Some hres) \<longrightarrow>
      (\<exists>r. standardizeWeights (sort_Sort e)
              (map (\<lambda>w. weight_of (BackendRef w))
                 (if totalZero then hrefs else filter (\<lambda>w. Weight (BackendRef w) \<noteq> Some 0) hrefs))
              = Inr r \<and>
           map hrd_Weight hres = map wrap32 (returned r)) \<and>
      map (\<lambda>w. buildDestination e (BackendRef w) ns domain)
          (if totalZero then hrefs else filter (\<lambda>w. Weight (BackendRef w) \<noteq> Some 0) hrefs)
        = map (\<lambda>rd. Inr (hrd_Destination rd)) hres)"
proof -
  have k: "filter (\<lambda>w. totalZero \<or> Weight (BackendRef w) \<noteq> Some 0) hrefs
      = (if totalZero then hrefs else filter (\<lambda>w. Weight (BackendRef w) \<noteq> Some 0) hrefs)"
    by simp
  have tcp: "map (\<lambda>w. buildDestination e w ns domain) (filter (\<lambda>w. Weight w \<noteq> Some 0) refs)
        = map (\<lambda>rd. Inr (rd_Destination rd)) res"
    if "buildTCPDestination e (Some refs) ns domain = Inr (Some res)"
    using that tcp_routes_destinations [of e ns domain _ 0 "filter (\<lambda>w. Weight w \<noteq> Some 0) refs" res]
    by (auto simp: buildTCPDestination_def tcp_select_eq split: sum.splits)
  have http: "map (\<lambda>w. buildDestination e (BackendRef w) ns domain)
          (if totalZero then hrefs else filter (\<lambda>w. Weight (BackendRef w) \<noteq> Some 0) hrefs)
        = map (\<lambda>rd. Inr (hrd_Destination rd)) hres"
    if "buildHTTPDestination e (Some hrefs) ns domain totalZero = Inr (Some hres)"
    using that http_routes_destinations [of e ns domain _ 0
        "filter (\<lambda>w. totalZero \<or> Weight (BackendRef w) \<noteq> Some 0) hrefs" hres]
    by (auto simp: buildHTTPDestination_def http_select_eq split: sum.splits)
  note tw = buildTCPDestination_weights [of e refs ns domain res]
  note hw = buildHTTPDestination_weights [of e hrefs ns domain totalZero hres, unfolded k]
  show ?thesis
    using tcp http tw hw by (simp add: tcp_select_eq http_select_eq)
qed

theorem zero_weight_backends_excluded_witness:
  "buildTCPDestination example_env
      (Some [example_backend ''a'' (Some 1), example_backend ''b'' (Some 0)]) ''ns'' ''cluster.local''
     = Inr (Some [\<lparr>rd_Destination = \<lparr>Host = ''a.ns.svc.cluster.local'', PortNumber = 80\<rparr>, rd_Weight = 0\<rparr>]) \<and>
   tcp_select [example_backend ''a'' (Some 1), example_backend ''b'' (Some 0)]
     = ([1], [example_backend ''a'' (Some 1)]) \<and>
   standardizeWeights (sort_Sort example_env) [1] = Inr \<lparr>weights_after = [1], returned = [0]\<rparr> \<and>
   map rd_Weight [\<lparr>rd_Destination = \<lparr>Host = ''a.ns.svc.cluster.local'', PortNumber = 80\<rparr>, rd_Weight = 0\<rparr>]
     = map wrap32 [0] \<and>
   map (\<lambda>w. buildDestination example_env w ''ns'' ''cluster.local'') [example_backend ''a'' (Some 1)]
     = [Inr \<lparr>Host = ''a.ns.svc.cluster.local'', PortNumber = 80\<rparr>] \<and>
   buildHTTPDestination example_env
      (Some [\<lparr>BackendRef = example_backend ''a'' (Some 0), Filters = []\<rparr>,
             \<lparr>BackendRef = example_backend ''b'' (Some 2), Filters = []\<rparr>])
      ''ns'' ''cluster.local'' False
     = Inr (Some [\<lparr>hrd_Destination = \<lparr>Host = ''b.ns.svc.cluster.local'', PortNumber = 80\<rparr>,
                    hrd_Weight = 0, hrd_Headers = None\<rparr>]) \<and>
   http_select [\<lparr>BackendRef = example_backend ''a'' (Some 0), Filters = []\<rparr>,
                \<lparr>BackendRef = example_backend ''b'' (Some 2), Filters = []\<rparr>] False
     = ([2], [\<lparr>BackendRef = example_backend ''b'' (Some 2), Filters = []\<rparr>]) \<and>
   standardizeWeights (sort_Sort example_env) [2] = Inr \<lparr>weights_after = [2], returned = [0]\<rparr> \<and>
   buildHTTPDestination example_env
      (Some [\<lparr>BackendRef = example_backend ''a'' (Some 0), Filters = []\<rparr>,
             \<lparr>BackendRef = example_backend ''b'' (Some 0), Filters = []\<rparr>])
      ''ns'' ''cluster.local'' True
     = Inr (Some [\<lparr>hrd_Destination = \<lparr>Host = ''a.ns.svc.cluster.local'', PortNumber = 80\<rparr>,
                    hrd_Weight = 50, hrd_Headers = None\<rparr>,
                  \<lparr>hrd_Destination = \<lparr>Host = ''b.ns.svc.cluster.local'', PortNumber = 80\<rparr>,
                    hrd_Weight = 50, hrd_Headers = None\<rparr>]) \<and>
   http_select [\<lparr>BackendRef = example_backend ''a'' (Some 0), Filters = []\<rparr>,
                \<lparr>BackendRef = example_backend ''b'' (Some 0), Filters = []\<rparr>] True
     = ([0, 0], [\<lparr>BackendRef = example_backend ''a'' (Some 0), Filters = []\<rparr>,
                 \<lparr>BackendRef = example_backend ''b'' (Some 0), Filters = []\<rparr>]) \<and>
   standardizeWeights (sort_Sort example_env) [0, 0] = Inr \<lparr>weights_after = [1, 1], returned = [50, 50]\<rparr> \<and>
   map (\<lambda>w. buildDestination example_env (BackendRef w) ''ns'' ''cluster.local'')
       [\<lparr>BackendRef = example_backend ''a'' (Some 0), Filters = []\<rparr>,
        \<lparr>BackendRef = example_backend ''b'' (Some 0), Filters = []\<rparr>]
     = [Inr \<lparr>Host = ''a.ns.svc.cluster.local'', PortNumber = 80\<rparr>,
        Inr \<lparr>Host = ''b.ns.svc.cluster.local'', PortNumber = 80\<rparr>]"
proof -
  have t: "buildTCPDestination example_env
      (Some [example_backend ''a'' (Some 1), example_backend ''b'' (Some 0)]) ''ns'' ''cluster.local''
     = Inr (Some [\<lparr>rd_Destination = \<lparr>Host = ''a.ns.svc.cluster.local'', PortNumber = 80\<rparr>, rd_Weight = 0\<rparr>])"
    by code_simp
  have hf: "buildHTTPDestination example_env
      (Some [\<lparr>BackendRef = example_backend ''a'' (Some 0), Filters = []\<rparr>,
             \<lparr>BackendRef = example_backend ''b'' (Some 2), Filters = []\<rparr>])
      ''ns'' ''cluster.local'' False
     = Inr (Some [\<lparr>hrd_Destination = \<lparr>Host = ''b.ns.svc.cluster.local'', PortNumber = 80\<rparr>,
                    hrd_Weight = 0, hrd_Headers = None\<rparr>])"
    by code_simp
  have ht: "buildHTTPDestination example_env
      (Some [\<lparr>BackendRef = example_backend ''a'' (Some 0), Filters = []\<rparr>,
             \<lparr>BackendRef = example_backend ''b'' (Some 0), Filters = []\<rparr>])
      ''ns'' ''cluster.local'' True
     = Inr (Some [\<lparr>hrd_Destination = \<lparr>Host = ''a.ns.svc.cluster.local'', PortNumber = 80\<rparr>,
                    hrd_Weight = 50, hrd_Headers = None\<rparr>,
                  \<lparr>hrd_Destination = \<lparr>Host = ''b.ns.svc.cluster.local'', PortNumber = 80\<rparr>,
                    hrd_Weight = 50, hrd_Headers = None\<rparr>])"
    by code_simp
  have s1: "standardizeWeights (sort_Sort example_env) [1] = Inr \<lparr>weights_after = [1], returned = [0]\<rparr>"
    and s2: "standardizeWeights (sort_Sort example_env) [2] = Inr \<lparr>weights_after = [2], returned = [0]\<rparr>"
    by (simp_all add: standardizeWeights_def)
  have s0: "standardizeWeights (sort_Sort example_env) [0, 0] = Inr \<lparr>weights_after = [1, 1], returned = [50, 50]\<rparr>"
    by code_simp
  note i1 = zero_weight_backends_excluded
    [where refs = "[example_backend ''a'' (Some 1), example_backend ''b'' (Some 0)]"
       and e = example_env and ns = "''ns''" and domain = "''cluster.local''"
       and res = "[\<lparr>rd_Destination = \<lparr>Host = ''a.ns.svc.cluster.local'', PortNumber = 80\<rparr>, rd_Weight = 0\<rparr>]"
       and hrefs = "[\<lparr>BackendRef = example_backend ''a'' (Some 0), Filters = []\<rparr>,
          \<lparr>BackendRef = example_backend ''b'' (Some 2), Filters = []\<rparr>]"
       and totalZero = False
       and hres = "[\<lparr>hrd_Destination = \<lparr>Host = ''b.ns.svc.cluster.local'', PortNumber = 80\<rparr>,
                    hrd_Weight = 0, hrd_Headers = None\<rparr>]"]
  note i2 = zero_weight_backends_excluded
    [where refs = "[example_backend ''a'' (Some 1), example_backend ''b'' (Some 0)]"
       and e = example_env and ns = "''ns''" and domain = "''cluster.local''"
       and res = "[\<lparr>rd_Destination = \<lparr>Host = ''a.ns.svc.cluster.local'', PortNumber = 80\<rparr>, rd_Weight = 0\<rparr>]"
       and hrefs = "[\<lparr>BackendRef = example_backend ''a'' (Some 0), Filters = []\<rparr>,
          \<lparr>BackendRef = example_backend ''b'' (Some 0), Filters = []\<rparr>]"
       and totalZero = True
       and hres = "[\<lparr>hrd_Destination = \<lparr>Host = ''a.ns.svc.cluster.local'', PortNumber = 80\<rparr>,
                    hrd_Weight = 50, hrd_Headers = None\<rparr>,
                  \<lparr>hrd_Destination = \<lparr>Host = ''b.ns.svc.cluster.local'', PortNumber = 80\<rparr>,
                    hrd_Weight = 50, hrd_Headers = None\<rparr>]"]
  from i1 [unfolded t hf] i2 [unfolded t ht]
  show ?thesis using t hf ht s1 s2 s0
    by (simp add: example_backend_def weight_of_def)
qed

text \<open>
  C10. In a generated \<open>VirtualService\<close> the route of a rule whose backend references
  are at least one, all with a weight present and 0, and that has no redirect (no
  filter of the redirect type, or more generally a route left without a redirect),
  carries the fault that aborts 100 percent of the requests with status 503. A reference
  without a weight has weight 1, and a rule with such a reference gets no fault.
\<close>

theorem all_zero_weights_abort_503:
  assumes "buildHTTPVirtualServices e ns route gatewayNames domain = Inr (Some v)"
    and "k < length (Rules route)" and "BackendRefs (Rules route ! k) = Some refs"
  shows "length (Http v) = length (Rules route) \<and>
    (refs \<noteq> [] \<and> (\<forall>w\<in>set refs. Weight (BackendRef w) = Some 0) \<and>
     (\<forall>f\<in>set (RuleFilters (Rules route ! k)). Type f \<noteq> HTTPRouteFilterRequestRedirect)
       \<longrightarrow> vs_Fault (Http v ! k) = Some \<lparr>Percentage = 100, HttpStatus = 503\<rparr>) \<and>
    (refs \<noteq> [] \<and> (\<forall>w\<in>set refs. Weight (BackendRef w) = Some 0) \<and> vs_Redirect (Http v ! k) = None
       \<longrightarrow> vs_Fault (Http v ! k) = Some \<lparr>Percentage = 100, HttpStatus = 503\<rparr>) \<and>
    (\<forall>w\<in>set refs. Weight (BackendRef w) = None
       \<longrightarrow> weight_of (BackendRef w) = 1 \<and> vs_Fault (Http v ! k) = None)"
proof -
  from assms(1) obtain httproutes where
    c: "convert_rules e ns domain (Rules route) = Inr httproutes" and h: "Http v = httproutes"
    by (auto simp: buildHTTPVirtualServices_def split: sum.splits if_splits)
  from convert_rules_nth [OF c] assms(2)
  have l: "length httproutes = length (Rules route)"
    and r: "convert_rule e ns domain (Rules route ! k) = Inr (httproutes ! k)" by simp_all
  note f = convert_rule_Fault [OF r, unfolded assms(3) zero_weights_iff, simplified]
  note d = convert_rule_Redirect [OF r]
  show ?thesis using l f d by (auto simp: h abort_503_def weight_of_def)
qed

theorem all_zero_weights_abort_503_witness:
  "buildHTTPVirtualServices example_env ''ns'' example_route [''gw''] ''cluster.local''
     = Inr (Some example_VirtualService) \<and>
   0 < length (Rules example_route) \<and>
   BackendRefs (Rules example_route ! 0)
     = Some [\<lparr>BackendRef = example_backend ''a'' (Some 0), Filters = []\<rparr>,
             \<lparr>BackendRef = example_backend ''b'' (Some 0), Filters = []\<rparr>] \<and>
   list_all (\<lambda>f. Type f \<noteq> HTTPRouteFilterRequestRedirect) (RuleFilters (Rules example_route ! 0)) \<and>
   vs_Redirect (Http example_VirtualService ! 0) = None \<and>
   vs_Fault (Http example_VirtualService ! 0) = Some \<lparr>Percentage = 100, HttpStatus = 503\<rparr> \<and>
   BackendRefs (Rules example_route ! 1)
     = Some [\<lparr>BackendRef = example_backend ''a'' (Some 0), Filters = []\<rparr>,
             \<lparr>BackendRef = example_backend ''b'' None, Filters = []\<rparr>] \<and>
   weight_of (example_backend ''b'' None) = 1 \<and>
   vs_Fault (Http example_VirtualService ! 1) = None"
proof -
  have e: "buildHTTPVirtualServices example_env ''ns'' example_route [''gw''] ''cluster.local''
     = Inr (Some example_VirtualService)"
    by code_simp
  have r0: "BackendRefs (Rules example_route ! 0)
     = Some [\<lparr>BackendRef = example_backend ''a'' (Some 0), Filters = []\<rparr>,
             \<lparr>BackendRef = example_backend ''b'' (Some 0), Filters = []\<rparr>]"
    and r1: "BackendRefs (Rules example_route ! 1)
     = Some [\<lparr>BackendRef = example_backend ''a'' (Some 0), Filters = []\<rparr>,
             \<lparr>BackendRef = example_backend ''b'' None, Filters = []\<rparr>]"
    and l: "0 < length (Rules example_route)" "1 < length (Rules example_route)"
    by (simp_all add: example_route_def example_rule_def)
  have d: "vs_Redirect (Http example_VirtualService ! 0) = None"
    by (simp add: example_VirtualService_def)
  have n: "list_all (\<lambda>f. Type f \<noteq> HTTPRouteFilterRequestRedirect)
      (RuleFilters (Rules example_route ! 0))"
    by (simp add: example_route_def example_rule_def)
  from all_zero_weights_abort_503 [OF e l(1) r0] all_zero_weights_abort_503 [OF e l(2) r1]
  show ?thesis using e l(1) r0 r1 d n
    by (simp add: example_backend_def)
qed

end
